theory Spec2Isabelle
  imports Main "HOL-Library.Multiset"
begin

section \<open>Data model of \<^verbatim>\<open>FetchQueue.mjs\<close>\<close>

text \<open>
  The three values of the \<^verbatim>\<open>pending\<close> field:
  \<^verbatim>\<open>static NONE = 0; static ASYNC = 1; static SYNC = 2;\<close>
\<close>

datatype pending_mode = NONE | ASYNC | SYNC

text \<open>
  An \<^verbatim>\<open>HttpException\<close> carries a status and a parsed body, a successful exchange
  resolves to \<^verbatim>\<open>{ status, body }\<close>.
\<close>

datatype http_exception = HttpException (status: int) (data: string)

datatype http_response = HttpResponse (resp_status: int) (resp_body: string)

text \<open>
  \<^verbatim>\<open>accessStore\<close> and \<^verbatim>\<open>refreshStore\<close> are objects \<^verbatim>\<open>{ token: null, delay: 0, exp: 0 }\<close>.
  A token is \<^verbatim>\<open>null\<close> (\<open>None\<close>) or a string; timestamps are milliseconds.
\<close>

record store =
  token :: "string option"
  delay :: int
  exp :: int

text \<open>
  The \<^verbatim>\<open>Config\<close> object. The three strategies and the error hook are opaque callbacks of
  the embedder: the record keeps whether each one is configured (what the truthiness tests
  \<^verbatim>\<open>!!this.config.generate\<close> and friends read), their effects arrive as events (below).
\<close>

record config =
  connected :: bool
  has_generate :: bool
  has_renew :: bool
  has_refresh :: bool
  has_handleErrors :: bool

text \<open>
  The \<^verbatim>\<open>Options\<close> object of one call. \<^verbatim>\<open>headers\<close> is \<^verbatim>\<open>null\<close>/absent or an object from
  header names to values; the other fields are opaque to \<^verbatim>\<open>FetchQueue\<close>.
\<close>

record options =
  baseUrl :: "string option"
  http_method :: "string option"
  signal :: "string option"
  credentials :: "string option"
  headers :: "(string \<rightharpoonup> string) option"
  query :: "string option"
  body :: "string option"
  form :: "string option"
  json :: "string option"
  extra :: "string option"

text \<open>
  One invocation \<^verbatim>\<open>send(url, options)\<close>. JavaScript passes \<^verbatim>\<open>options\<close> by reference, and
  the replay closure \<^verbatim>\<open>() => this.send(url, options)\<close> and the retry
  \<^verbatim>\<open>this.send(ctx.url, ctx.options)\<close> hold that same reference: \<open>opts\<close> is the address of the
  object in the \<open>heap\<close> of the state (a caller that leaves \<^verbatim>\<open>options\<close> out gets the new
  object \<^verbatim>\<open>{}\<close> of the default parameter: an address that nothing else refers to, holding
  an empty object). \<open>caller\<close> names the promise of the original caller,
  to which \<^verbatim>\<open>handler.resolve\<close>/\<^verbatim>\<open>handler.reject\<close> and the returned promises forward the
  outcome of every later attempt.
\<close>

record call =
  caller :: nat
  url :: string
  opts :: nat

datatype op_kind = Generate | Renew | Refresh

datatype settled = Fulfilled | Rejected http_exception

text \<open>
  Promise reactions waiting in the microtask queue:
  \<^item> \<open>SendCont c q\<close>: the rest of \<^verbatim>\<open>FetchQueue.send\<close> after \<^verbatim>\<open>await this.isQueue()\<close>
    answered \<open>q\<close>;
  \<^item> \<open>OpCatch k outer r\<close>: the \<^verbatim>\<open>.catch\<close> reaction of operation \<open>k\<close>, whose strategy
    promise settled as \<open>r\<close>; \<open>outer\<close> are the operations whose \<^verbatim>\<open>.catch\<close> handler returned
    the promise of \<open>k\<close> (\<^verbatim>\<open>return this.refresh()\<close>), innermost first: their \<^verbatim>\<open>.finally\<close>
    handlers wait for \<open>k\<close>;
  \<^item> \<open>OpFinally frames r\<close>: the \<^verbatim>\<open>.finally\<close> reaction of the head of \<open>frames\<close>, then of
    the enclosing operations;
  \<^item> \<open>HandleErrors c e\<close>: the last \<^verbatim>\<open>.catch\<close> of \<^verbatim>\<open>Fetch.send\<close>;
  \<^item> \<open>HookCont c e out\<close>: the rest of \<^verbatim>\<open>handleErrors\<close> after
    \<^verbatim>\<open>await this.config.handleErrors(e, ctx)\<close>, the hook having settled as \<open>out\<close>
    (\<open>None\<close>: fulfilled, \<open>Some e'\<close>: rejected with \<open>e'\<close>);
  \<^item> \<open>Deliver c resp\<close>: fulfilment of the caller's promise.
\<close>

datatype task =
    SendCont call bool
  | OpCatch op_kind "op_kind list" settled
  | OpFinally "op_kind list" settled
  | HandleErrors call http_exception
  | HookCont call http_exception "http_exception option"
  | Deliver call http_response

text \<open>
  What an observer sees, in order: a strategy callback invoked, a queued call replayed
  (\<^verbatim>\<open>handler.promise()\<close> called), a call retried after a 401, \<^verbatim>\<open>super.send\<close> called with
  the options as they are at that moment, a \<^verbatim>\<open>.finally\<close> handler run, the promise of a
  top-level operation settled, the \<^verbatim>\<open>config.handleErrors\<close> hook called, a caller's promise
  fulfilled or rejected.
\<close>

datatype obs =
    Invoked op_kind
  | Replayed call
  | Retried call
  | Fetched call options
  | Finalized op_kind
  | ChainSettled settled
  | Hooked call http_exception
  | Resolved nat http_response
  | Failed nat http_exception

text \<open>
  The fields of a \<^verbatim>\<open>FetchQueue\<close> instance (\<^verbatim>\<open>pending\<close>, the two stores, \<^verbatim>\<open>config\<close>,
  \<^verbatim>\<open>#queue\<close>) and its environment: the objects passed as \<^verbatim>\<open>options\<close>, the clock read by
  \<^verbatim>\<open>Date.now()\<close>, the microtask queue, the strategy calls, the transport exchanges and the
  calls of the error hook that have not settled yet, and the observations so far.
\<close>

record state =
  pending :: pending_mode
  accessStore :: store
  refreshStore :: store
  config :: config
  queue :: "call list"
  heap :: "nat \<Rightarrow> options"
  clock :: nat
  microtasks :: "task list"
  ops :: "(op_kind \<times> op_kind list) list"
  flights :: "call list"
  hooks :: "(call \<times> http_exception) list"
  log :: "obs list"

section \<open>Token operations\<close>

text \<open>
  \<^verbatim>\<open>generate()\<close>, \<^verbatim>\<open>renew()\<close>, \<^verbatim>\<open>refresh()\<close> up to the call of the strategy: without a
  configured strategy they return a resolved promise (which only matters to an enclosing
  \<^verbatim>\<open>.catch\<close> that returned it: its \<^verbatim>\<open>.finally\<close> follows); otherwise they set \<^verbatim>\<open>pending\<close> and
  call the strategy, which stays in flight until an \<open>OpSettle\<close> event.
\<close>

definition generate :: "op_kind list \<Rightarrow> state \<Rightarrow> state" where
  "generate outer s =
     (if \<not> has_generate (config s)
      then (if outer = [] then s
            else s\<lparr>microtasks := microtasks s @ [OpFinally outer Fulfilled]\<rparr>)
      else s\<lparr>pending := SYNC, ops := ops s @ [(Generate, outer)],
             log := log s @ [Invoked Generate]\<rparr>)"

definition renew :: "op_kind list \<Rightarrow> state \<Rightarrow> state" where
  "renew outer s =
     (if \<not> has_renew (config s)
      then (if outer = [] then s
            else s\<lparr>microtasks := microtasks s @ [OpFinally outer Fulfilled]\<rparr>)
      else s\<lparr>pending := ASYNC, ops := ops s @ [(Renew, outer)],
             log := log s @ [Invoked Renew]\<rparr>)"

definition refresh :: "op_kind list \<Rightarrow> state \<Rightarrow> state" where
  "refresh outer s =
     (if \<not> has_refresh (config s)
      then (if outer = [] then s
            else s\<lparr>microtasks := microtasks s @ [OpFinally outer Fulfilled]\<rparr>)
      else s\<lparr>pending := SYNC, ops := ops s @ [(Refresh, outer)],
             log := log s @ [Invoked Refresh]\<rparr>)"

definition generateValid :: "state \<Rightarrow> bool" where
  "generateValid s \<longleftrightarrow> has_generate (config s) \<and> connected (config s)"

definition renewValid :: "int \<Rightarrow> state \<Rightarrow> bool" where
  "renewValid timestamp s \<longleftrightarrow>
     (let createdAt = exp (accessStore s) - delay (accessStore s)
      in has_renew (config s) \<and> createdAt < timestamp - 1000 * 60 * 15)"

definition refreshValid :: "int \<Rightarrow> state \<Rightarrow> bool" where
  "refreshValid timestamp s \<longleftrightarrow> has_refresh (config s) \<and> exp (refreshStore s) > timestamp"

definition resetAccess :: "state \<Rightarrow> state" where
  "resetAccess s = s\<lparr>accessStore := \<lparr>token = None, delay = 0, exp = 0\<rparr>\<rparr>"

definition resetRefresh :: "state \<Rightarrow> state" where
  "resetRefresh s = s\<lparr>refreshStore := \<lparr>token = None, delay = 0, exp = 0\<rparr>\<rparr>"

definition Date_now :: "state \<Rightarrow> int" where
  "Date_now s = int (clock s)"

section \<open>Admission and queue drain\<close>

text \<open>
  \<^verbatim>\<open>await this.isQueue()\<close>: \<^verbatim>\<open>isQueue\<close> has no \<^verbatim>\<open>await\<close> of its own, so its body has run
  to the end when the caller reaches the \<^verbatim>\<open>await\<close>; the rest of \<^verbatim>\<open>send\<close> becomes a
  microtask.
\<close>

definition await_isQueue :: "call \<Rightarrow> bool \<times> state \<Rightarrow> state" where
  "await_isQueue c r = (snd r)\<lparr>microtasks := microtasks (snd r) @ [SendCont c (fst r)]\<rparr>"

text \<open>
  \<open>send\<close> is the synchronous part of \<^verbatim>\<open>FetchQueue.send\<close>, \<open>isQueue\<close> and \<open>runQueue\<close> are the
  methods of these names. They call each other as in the source: \<^verbatim>\<open>runQueue\<close> replays the
  head of the queue through \<^verbatim>\<open>send\<close>, whose admission may drain the queue again.
  \<^verbatim>\<open>this.#queue.shift(0)\<close> on an empty queue gives \<^verbatim>\<open>undefined\<close>, and \<^verbatim>\<open>handler?.promise()\<close>
  is then skipped.
\<close>

function send :: "call \<Rightarrow> state \<Rightarrow> state"
  and isQueue :: "state \<Rightarrow> bool \<times> state"
  and runQueue :: "state \<Rightarrow> state"
where
  "send c s = await_isQueue c (isQueue s)"
| "isQueue s =
     (if pending s = SYNC then (True, s)
      else let timestamp = Date_now s in
        if exp (accessStore s) > timestamp
        then (False, if renewValid timestamp s \<and> pending s = NONE then renew [] s else s)
        else if refreshValid timestamp (resetAccess s)
        then (True, (if pending s = NONE then refresh [] (resetAccess s) else resetAccess s)
                      \<lparr>pending := SYNC\<rparr>)
        else if generateValid (resetRefresh (resetAccess s))
        then (True, (if pending s = NONE then generate [] (resetRefresh (resetAccess s))
                     else resetRefresh (resetAccess s))\<lparr>pending := SYNC\<rparr>)
        else (False, runQueue (resetRefresh (resetAccess s))))"
| "runQueue s =
     (case queue s of
        [] \<Rightarrow> s
      | handler # rest \<Rightarrow>
          (let s' = send handler (s\<lparr>queue := rest, log := log s @ [Replayed handler]\<rparr>)
           in if queue s' \<noteq> [] then runQueue s' else s'))"
  by pat_completeness auto

section \<open>Dispatch and the 401 handler\<close>

text \<open>
  \<^verbatim>\<open>`Bearer ${this.accessStore.token}`\<close> spread over the caller's headers:
  \<^verbatim>\<open>options.headers = { ...options.headers, Authorization: ... }\<close>.
\<close>

definition bearer :: "options \<Rightarrow> string \<Rightarrow> options" where
  "bearer options tok =
     options\<lparr>headers :=
       Some ((case headers options of None \<Rightarrow> Map.empty | Some h \<Rightarrow> h)
               (''Authorization'' \<mapsto> ''Bearer '' @ tok))\<rparr>"

text \<open>
  \<^verbatim>\<open>super.send(url, options)\<close>: \<^verbatim>\<open>Fetch.send\<close> builds the request from the options and calls
  \<^verbatim>\<open>fetch\<close> before it returns, so what it reads is the object as it is now; how it builds
  the request is the transport's business. The exchange stays in flight until a
  \<open>TransportSettle\<close> event.
\<close>

definition Fetch_send :: "call \<Rightarrow> state \<Rightarrow> state" where
  "Fetch_send c s =
     s\<lparr>flights := flights s @ [c], log := log s @ [Fetched c (heap s (opts c))]\<rparr>"

text \<open>
  The rest of \<^verbatim>\<open>FetchQueue.send\<close>. \<^verbatim>\<open>if (this.accessStore.token)\<close> is a truthiness test:
  \<^verbatim>\<open>null\<close> and the empty string are falsy.
\<close>

definition send_resume :: "call \<Rightarrow> bool \<Rightarrow> state \<Rightarrow> state" where
  "send_resume c queued s =
     (if queued then s\<lparr>queue := queue s @ [c]\<rparr>
      else Fetch_send c
        (case token (accessStore s) of
           None \<Rightarrow> s
         | Some tok \<Rightarrow>
             if tok = [] then s
             else s\<lparr>heap := (heap s)(opts c := bearer (heap s (opts c)) tok)\<rparr>))"

text \<open>
  \<^verbatim>\<open>handleErrors\<close> up to its \<^verbatim>\<open>await\<close>. The retry returns the promise of the new \<^verbatim>\<open>send\<close>.
  Otherwise, with a hook configured, the hook is called and awaited: the call stays in
  \<open>hooks\<close> until a \<open>HookSettle\<close> event, and nothing is surfaced before that; without a
  hook, \<^verbatim>\<open>throw e\<close> rejects the caller's promise with \<open>e\<close>.
\<close>

definition handleErrors :: "http_exception \<Rightarrow> call \<Rightarrow> state \<Rightarrow> state" where
  "handleErrors e ctx s =
     (let s1 = (if status e = 401 then resetAccess s else s) in
      if status e = 401 \<and> (refreshValid (Date_now s1) s1 \<or> generateValid s1)
      then send ctx (s1\<lparr>log := log s1 @ [Retried ctx]\<rparr>)
      else if has_handleErrors (config s1)
      then s1\<lparr>hooks := hooks s1 @ [(ctx, e)], log := log s1 @ [Hooked ctx e]\<rparr>
      else s1\<lparr>log := log s1 @ [Failed (caller ctx) e]\<rparr>)"

text \<open>
  The rest of \<^verbatim>\<open>handleErrors\<close> after the \<^verbatim>\<open>await\<close>: when the hook has fulfilled, \<^verbatim>\<open>throw e\<close>;
  when the hook has rejected, the \<^verbatim>\<open>await\<close> throws the error of the hook, and that is what
  the caller's promise is rejected with.
\<close>

definition hook_resume :: "call \<Rightarrow> http_exception \<Rightarrow> http_exception option \<Rightarrow> state \<Rightarrow> state" where
  "hook_resume ctx e out s =
     s\<lparr>log := log s @ [Failed (caller ctx) (case out of None \<Rightarrow> e | Some e' \<Rightarrow> e')]\<rparr>"

section \<open>Settling of a credential operation\<close>

text \<open>The three \<^verbatim>\<open>.catch\<close> handlers of \<^verbatim>\<open>generate\<close>, \<^verbatim>\<open>renew\<close> and \<^verbatim>\<open>refresh\<close>.\<close>

definition generate_catch :: "op_kind list \<Rightarrow> http_exception \<Rightarrow> state \<Rightarrow> state" where
  "generate_catch outer e s =
     (let s1 = s\<lparr>config := (config s)\<lparr>connected := False\<rparr>\<rparr>
      in s1\<lparr>microtasks := microtasks s1 @ [OpFinally (Generate # outer) (Rejected e)]\<rparr>)"

definition renew_catch :: "op_kind list \<Rightarrow> http_exception \<Rightarrow> state \<Rightarrow> state" where
  "renew_catch outer e s =
     (let s1 = resetAccess s in
      if refreshValid (Date_now s1) s1 then refresh (Renew # outer) s1
      else
        (let s2 = resetRefresh s1 in
         if generateValid s2 then generate (Renew # outer) s2
         else s2\<lparr>microtasks := microtasks s2 @ [OpFinally (Renew # outer) (Rejected e)]\<rparr>))"

definition refresh_catch :: "op_kind list \<Rightarrow> http_exception \<Rightarrow> state \<Rightarrow> state" where
  "refresh_catch outer e s =
     (let s1 = resetRefresh s in
      if generateValid s1 then generate (Refresh # outer) s1
      else s1\<lparr>microtasks := microtasks s1 @ [OpFinally (Refresh # outer) (Rejected e)]\<rparr>)"

text \<open>A fulfilled strategy promise skips the \<^verbatim>\<open>.catch\<close> handler.\<close>

definition op_catch :: "op_kind \<Rightarrow> op_kind list \<Rightarrow> settled \<Rightarrow> state \<Rightarrow> state" where
  "op_catch k outer r s =
     (case r of
        Fulfilled \<Rightarrow> s\<lparr>microtasks := microtasks s @ [OpFinally (k # outer) Fulfilled]\<rparr>
      | Rejected e \<Rightarrow>
          (case k of
             Generate \<Rightarrow> generate_catch outer e s
           | Renew \<Rightarrow> renew_catch outer e s
           | Refresh \<Rightarrow> refresh_catch outer e s))"

text \<open>
  The \<^verbatim>\<open>.finally\<close> handler, the same in the three operations:
  \<^verbatim>\<open>this.pending = FetchQueue.NONE; this.runQueue();\<close>. The promise it belongs to then
  settles as the inner one did; when a \<^verbatim>\<open>.catch\<close> handler of an enclosing operation
  returned that promise, the \<^verbatim>\<open>.finally\<close> of the enclosing operation is the next reaction,
  behind the continuations that the drain has just queued.
\<close>

definition op_finally :: "op_kind list \<Rightarrow> settled \<Rightarrow> state \<Rightarrow> state" where
  "op_finally frames r s =
     (case frames of
        [] \<Rightarrow> s
      | k # outer \<Rightarrow>
          (let s1 = runQueue (s\<lparr>pending := NONE, log := log s @ [Finalized k]\<rparr>)
           in if outer = [] then s1\<lparr>log := log s1 @ [ChainSettled r]\<rparr>
              else s1\<lparr>microtasks := microtasks s1 @ [OpFinally outer r]\<rparr>))"

definition run_task :: "task \<Rightarrow> state \<Rightarrow> state" where
  "run_task t s =
     (case t of
        SendCont c queued \<Rightarrow> send_resume c queued s
      | OpCatch k outer r \<Rightarrow> op_catch k outer r s
      | OpFinally frames r \<Rightarrow> op_finally frames r s
      | HandleErrors c e \<Rightarrow> handleErrors e c s
      | HookCont c e out \<Rightarrow> hook_resume c e out s
      | Deliver c resp \<Rightarrow> s\<lparr>log := log s @ [Resolved (caller c) resp]\<rparr>)"

section \<open>Events\<close>

text \<open>
  A strategy resolves after writing the stores it re-establishes (\<open>None\<close>: left as it
  is), or rejects.
\<close>

datatype op_outcome = Resolves "store option" "store option" | Rejects http_exception

text \<open>
  What happens to an instance: a caller invokes \<^verbatim>\<open>send(url, options)\<close>, the engine runs
  the next microtask, time passes, the strategy call number \<open>i\<close> in flight settles, the
  exchange number \<open>i\<close> in flight settles, the call number \<open>i\<close> of the error hook settles.
\<close>

datatype event =
    Call nat string nat
  | Tick
  | Advance nat
  | OpSettle nat op_outcome
  | TransportSettle nat "http_exception + http_response"
  | HookSettle nat "http_exception option"

definition settle_op :: "nat \<Rightarrow> op_outcome \<Rightarrow> state \<Rightarrow> state" where
  "settle_op i out s =
     (if i < length (ops s) then
        (let s1 = s\<lparr>ops := take i (ops s) @ drop (Suc i) (ops s)\<rparr> in
         case out of
           Resolves a r \<Rightarrow>
             s1\<lparr>accessStore := (case a of None \<Rightarrow> accessStore s | Some v \<Rightarrow> v),
                refreshStore := (case r of None \<Rightarrow> refreshStore s | Some v \<Rightarrow> v),
                microtasks := microtasks s @
                  [OpCatch (fst (ops s ! i)) (snd (ops s ! i)) Fulfilled]\<rparr>
         | Rejects e \<Rightarrow>
             s1\<lparr>microtasks := microtasks s @
                  [OpCatch (fst (ops s ! i)) (snd (ops s ! i)) (Rejected e)]\<rparr>)
      else s)"

definition settle_transport :: "nat \<Rightarrow> http_exception + http_response \<Rightarrow> state \<Rightarrow> state" where
  "settle_transport i out s =
     (if i < length (flights s) then
        s\<lparr>flights := take i (flights s) @ drop (Suc i) (flights s),
          microtasks := microtasks s @
            [case out of Inl e \<Rightarrow> HandleErrors (flights s ! i) e
                       | Inr resp \<Rightarrow> Deliver (flights s ! i) resp]\<rparr>
      else s)"

text \<open>
  The promise returned by the hook settles: fulfilled (\<open>None\<close>) or rejected with an error
  of its own. A hook that never settles is a call that stays in \<open>hooks\<close>.
\<close>

definition settle_hook :: "nat \<Rightarrow> http_exception option \<Rightarrow> state \<Rightarrow> state" where
  "settle_hook i out s =
     (if i < length (hooks s) then
        s\<lparr>hooks := take i (hooks s) @ drop (Suc i) (hooks s),
          microtasks := microtasks s @ [HookCont (fst (hooks s ! i)) (snd (hooks s ! i)) out]\<rparr>
      else s)"

definition step :: "event \<Rightarrow> state \<Rightarrow> state" where
  "step ev s =
     (case ev of
        Call cid u r \<Rightarrow> send \<lparr>caller = cid, url = u, opts = r\<rparr> s
      | Tick \<Rightarrow> (case microtasks s of [] \<Rightarrow> s | t # ts \<Rightarrow> run_task t (s\<lparr>microtasks := ts\<rparr>))
      | Advance d \<Rightarrow> s\<lparr>clock := clock s + d\<rparr>
      | OpSettle i out \<Rightarrow> settle_op i out s
      | TransportSettle i out \<Rightarrow> settle_transport i out s
      | HookSettle i out \<Rightarrow> settle_hook i out s)"

fun exec :: "event list \<Rightarrow> state \<Rightarrow> state" where
  "exec [] s = s"
| "exec (ev # evs) s = exec evs (step ev s)"

section \<open>Reading the observations\<close>

definition replays :: "obs list \<Rightarrow> call list" where
  "replays l = concat (map (\<lambda>x. case x of Replayed c \<Rightarrow> [c] | _ \<Rightarrow> []) l)"

definition retries :: "obs list \<Rightarrow> call list" where
  "retries l = concat (map (\<lambda>x. case x of Retried c \<Rightarrow> [c] | _ \<Rightarrow> []) l)"

definition invocations :: "obs list \<Rightarrow> op_kind list" where
  "invocations l = concat (map (\<lambda>x. case x of Invoked k \<Rightarrow> [k] | _ \<Rightarrow> []) l)"

definition finalizations :: "obs list \<Rightarrow> op_kind list" where
  "finalizations l = concat (map (\<lambda>x. case x of Finalized k \<Rightarrow> [k] | _ \<Rightarrow> []) l)"

definition failures :: "obs list \<Rightarrow> (nat \<times> http_exception) list" where
  "failures l = concat (map (\<lambda>x. case x of Failed n e \<Rightarrow> [(n, e)] | _ \<Rightarrow> []) l)"

definition conts :: "task list \<Rightarrow> (call \<times> bool) list" where
  "conts l = concat (map (\<lambda>x. case x of SendCont c q \<Rightarrow> [(c, q)] | _ \<Rightarrow> []) l)"

section \<open>Notions used in the statements\<close>

text \<open>
  The spec's \<open>renewDue(now)\<close>, from its words: renew configured, and the access token's
  expiry minus its issue delay lies more than 15 minutes (900000 ms) before \<open>now\<close>.
\<close>

definition renewDue :: "int \<Rightarrow> state \<Rightarrow> bool" where
  "renewDue now s \<longleftrightarrow>
     has_renew (config s) \<and> exp (accessStore s) - delay (accessStore s) < now - 900000"

text \<open>A configuration with none of the three strategies.\<close>

definition no_strategy :: "config \<Rightarrow> bool" where
  "no_strategy cfg \<longleftrightarrow> \<not> has_generate cfg \<and> \<not> has_renew cfg \<and> \<not> has_refresh cfg"

text \<open>\<^verbatim>\<open>options.headers?.[k]\<close>, and JavaScript's truthiness of a token.\<close>

definition header :: "options \<Rightarrow> string \<Rightarrow> string option" where
  "header options k = (case headers options of None \<Rightarrow> None | Some h \<Rightarrow> h k)"


text \<open>The event of a caller invoking \<^verbatim>\<open>send\<close> for the call \<open>c\<close>.\<close>

definition arrive :: "call \<Rightarrow> event" where
  "arrive c = Call (caller c) (url c) (opts c)"

text \<open>
  Events during which no strategy and no exchange settles; task lists that hold
  continuations of \<^verbatim>\<open>send\<close> only.
\<close>

definition quiet :: "event \<Rightarrow> bool" where
  "quiet ev \<longleftrightarrow>
     (case ev of Call cid u r \<Rightarrow> True | Tick \<Rightarrow> True | Advance d \<Rightarrow> True | _ \<Rightarrow> False)"

definition is_call :: "event \<Rightarrow> bool" where
  "is_call ev \<longleftrightarrow> (case ev of Call cid u r \<Rightarrow> True | _ \<Rightarrow> False)"

definition only_conts :: "task list \<Rightarrow> bool" where
  "only_conts ts \<longleftrightarrow> list_all (\<lambda>t. case t of SendCont c q \<Rightarrow> True | _ \<Rightarrow> False) ts"

text \<open>
  A function of the state that none of the elementary updates made inside admission and
  drain changes.
\<close>

definition drain_stable :: "(state \<Rightarrow> 'a) \<Rightarrow> bool" where
  "drain_stable f \<longleftrightarrow>
     (\<forall>s. f (resetAccess s) = f s \<and> f (resetRefresh s) = f s \<and>
          f (renew [] s) = f s \<and> f (refresh [] s) = f s \<and> f (generate [] s) = f s \<and>
          f (s\<lparr>pending := SYNC\<rparr>) = f s \<and>
          (\<forall>c q. f (s\<lparr>microtasks := microtasks s @ [SendCont c q]\<rparr>) = f s) \<and>
          (\<forall>h rest. queue s = h # rest \<longrightarrow>
                    f (s\<lparr>queue := rest, log := log s @ [Replayed h]\<rparr>) = f s))"

text \<open>
  Mutual exclusion without fallbacks. \<open>settling\<close> counts the operations whose strategy has
  settled and whose handlers have not run yet; a task is \<open>unchained\<close> when it belongs to an
  operation that was started by admission and not by a \<^verbatim>\<open>.catch\<close> handler. \<open>exclusive\<close> is the
  invariant: at most one operation is in flight or settling, none when \<open>pending\<close> is
  \<open>NONE\<close>. \<open>no_fallbacks\<close> describes the executions in which no renew and no refresh is
  rejected. \<open>started s s'\<close>: between \<open>s\<close> and \<open>s'\<close> at most one operation was started, and
  none unless \<open>pending\<close> was \<open>NONE\<close>.
\<close>

definition settling :: "task list \<Rightarrow> nat" where
  "settling ts =
     length (filter (\<lambda>t. case t of OpCatch k outer r \<Rightarrow> True | OpFinally frames r \<Rightarrow> True
                              | _ \<Rightarrow> False) ts)"

definition unchained :: "task \<Rightarrow> bool" where
  "unchained t \<longleftrightarrow>
     (case t of
        OpCatch k outer r \<Rightarrow> outer = [] \<and> (r = Fulfilled \<or> k = Generate)
      | OpFinally frames r \<Rightarrow> length frames = 1
      | _ \<Rightarrow> True)"

definition exclusive :: "state \<Rightarrow> bool" where
  "exclusive s \<longleftrightarrow>
     list_all unchained (microtasks s) \<and> list_all (\<lambda>op. snd op = []) (ops s) \<and>
     length (ops s) + settling (microtasks s) \<le> 1 \<and>
     (pending s = NONE \<longrightarrow> ops s = [] \<and> settling (microtasks s) = 0)"

definition no_fallback :: "state \<Rightarrow> event \<Rightarrow> bool" where
  "no_fallback s ev \<longleftrightarrow>
     (case ev of
        OpSettle i out \<Rightarrow>
          (case out of Rejects e \<Rightarrow> i < length (ops s) \<longrightarrow> fst (ops s ! i) = Generate
                     | Resolves a r \<Rightarrow> True)
      | _ \<Rightarrow> True)"

fun no_fallbacks :: "state \<Rightarrow> event list \<Rightarrow> bool" where
  "no_fallbacks s [] = True"
| "no_fallbacks s (ev # evs) = (no_fallback s ev \<and> no_fallbacks (step ev s) evs)"

definition started :: "state \<Rightarrow> state \<Rightarrow> bool" where
  "started s s' \<longleftrightarrow>
     (if pending s = NONE
      then (ops s' = ops s \<and> pending s' = NONE) \<or>
           (\<exists>k. ops s' = ops s @ [(k, [])] \<and> pending s' \<noteq> NONE)
      else ops s' = ops s \<and> pending s' \<noteq> NONE)"

section \<open>Example instances and courses of events\<close>

text \<open>\<^verbatim>\<open>new FetchQueue({}, cfg)\<close>, with every options object empty.\<close>

definition no_options :: options where
  "no_options = \<lparr>baseUrl = None, http_method = None, signal = None, credentials = None,
     headers = None, query = None, body = None, form = None, json = None, extra = None\<rparr>"

definition fresh_instance :: "config \<Rightarrow> state" where
  "fresh_instance cfg =
     \<lparr>pending = NONE,
      accessStore = \<lparr>token = None, delay = 0, exp = 0\<rparr>,
      refreshStore = \<lparr>token = None, delay = 0, exp = 0\<rparr>,
      config = cfg, queue = [], heap = (\<lambda>_. no_options), clock = 0, microtasks = [],
      ops = [], flights = [], hooks = [], log = []\<rparr>"

text \<open>Five configurations; the last one has an error hook and nothing else.\<close>

definition all_strategies :: config where
  "all_strategies = \<lparr>connected = True, has_generate = True, has_renew = True,
     has_refresh = True, has_handleErrors = False\<rparr>"

definition renew_and_refresh :: config where
  "renew_and_refresh = \<lparr>connected = False, has_generate = False, has_renew = True,
     has_refresh = True, has_handleErrors = False\<rparr>"

definition generate_only :: config where
  "generate_only = \<lparr>connected = True, has_generate = True, has_renew = False,
     has_refresh = False, has_handleErrors = False\<rparr>"

definition bare :: config where
  "bare = \<lparr>connected = False, has_generate = False, has_renew = False,
     has_refresh = False, has_handleErrors = False\<rparr>"

definition hook_only :: config where
  "hook_only = \<lparr>connected = False, has_generate = False, has_renew = False,
     has_refresh = False, has_handleErrors = True\<rparr>"

text \<open>Three calls, each with an options object of its own, and four errors.\<close>

definition call_a :: call where "call_a = \<lparr>caller = 1, url = ''/a'', opts = 1\<rparr>"

definition call_b :: call where "call_b = \<lparr>caller = 2, url = ''/b'', opts = 2\<rparr>"

definition call_c :: call where "call_c = \<lparr>caller = 3, url = ''/c'', opts = 3\<rparr>"

definition unauthorized :: http_exception where
  "unauthorized = HttpException 401 ''expired''"

definition forbidden :: http_exception where
  "forbidden = HttpException 403 ''refresh''"

definition server_error :: http_exception where
  "server_error = HttpException 500 ''down''"

definition bad_gateway :: http_exception where
  "bad_gateway = HttpException 502 ''renew''"

text \<open>
  What a strategy may store at time 3000000: an access token issued now for one hour, one
  issued 20 minutes ago for one hour, and a new refresh token.
\<close>

definition fresh_access :: store where
  "fresh_access = \<lparr>token = Some ''t2'', delay = 3600000, exp = 6600000\<rparr>"

definition aged_access :: store where
  "aged_access = \<lparr>token = Some ''t2'', delay = 3600000, exp = 5400000\<rparr>"

definition new_refresh :: store where
  "new_refresh = \<lparr>token = Some ''r2'', delay = 0, exp = 180000000\<rparr>"

text \<open>
  Instances with all strategies. \<open>stale_access\<close>: idle at time 3000000, with an access
  token issued at 1400000 for one hour (still valid, and older than 15 minutes) and a valid
  refresh token. \<open>renewing\<close>: the same with the background renew in flight.
  \<open>renewing_expired\<close>: the renew still in flight at 6000000, when the access token has
  expired. \<open>generating\<close>: a generate in flight. \<open>two_frames\<close>: a refresh that was called
  by the \<^verbatim>\<open>.catch\<close> of renew has succeeded, the \<^verbatim>\<open>.finally\<close> handlers are due.
\<close>

definition stale_access :: state where
  "stale_access = (fresh_instance all_strategies)
     \<lparr>accessStore := \<lparr>token = Some ''t1'', delay = 3600000, exp = 5000000\<rparr>,
      refreshStore := \<lparr>token = Some ''r1'', delay = 0, exp = 90000000\<rparr>,
      clock := 3000000\<rparr>"

definition renewing :: state where
  "renewing = stale_access\<lparr>pending := ASYNC, ops := [(Renew, [])], log := [Invoked Renew]\<rparr>"

definition renewing_expired :: state where
  "renewing_expired = stale_access
     \<lparr>pending := ASYNC, ops := [(Renew, [])], log := [Invoked Renew], clock := 6000000\<rparr>"


definition two_frames :: state where
  "two_frames = (fresh_instance all_strategies)
     \<lparr>pending := SYNC, microtasks := [OpFinally [Refresh, Renew] Fulfilled]\<rparr>"

text \<open>
  Instances with renew and refresh only: idle with the stale access token, and with the
  renew in flight.
\<close>

definition idle_stale :: state where
  "idle_stale = (fresh_instance renew_and_refresh)
     \<lparr>accessStore := \<lparr>token = Some ''t1'', delay = 3600000, exp = 5000000\<rparr>,
      refreshStore := \<lparr>token = Some ''r1'', delay = 0, exp = 90000000\<rparr>,
      clock := 3000000\<rparr>"

definition renew_running :: state where
  "renew_running = idle_stale\<lparr>pending := ASYNC, ops := [(Renew, [])]\<rparr>"

text \<open>
  The renew still in flight at 100000000, when the access token and the refresh token
  have both expired, with a call waiting in the queue: no recovery path is left.
\<close>

definition renewing_no_recovery :: state where
  "renewing_no_recovery = renew_running\<lparr>clock := 100000000, queue := [call_b]\<rparr>"

text \<open>An instance with generate only, and a valid access token.\<close>

definition signed_in :: state where
  "signed_in = (fresh_instance generate_only)
     \<lparr>accessStore := \<lparr>token = Some ''t1'', delay = 0, exp = 5000000\<rparr>, clock := 3000000\<rparr>"

text \<open>
  Instances without strategies, the stores written by the embedder: a valid access token,
  the same with every options object carrying a header of the caller, an access token
  that is the empty string, and two calls waiting in the queue while both stores are
  invalid for admission.
\<close>

definition manual_token :: state where
  "manual_token = (fresh_instance bare)
     \<lparr>accessStore := \<lparr>token = Some ''t1'', delay = 0, exp = 5000000\<rparr>, clock := 3000000\<rparr>"

definition own_headers :: state where
  "own_headers = manual_token
     \<lparr>heap := (\<lambda>_. no_options\<lparr>headers := Some [''Accept'' \<mapsto> ''text/plain'']\<rparr>)\<rparr>"

definition empty_token :: state where
  "empty_token = (fresh_instance bare)
     \<lparr>accessStore := \<lparr>token = Some [], delay = 0, exp = 5000000\<rparr>, clock := 3000000\<rparr>"

text \<open>
  An instance whose only configuration is the error hook; the same after the hook was
  called for \<open>call_a\<close> with a 401.
\<close>

definition hooked :: state where
  "hooked = (fresh_instance hook_only)\<lparr>clock := 3000000\<rparr>"

definition hook_running :: state where
  "hook_running = hooked\<lparr>hooks := [(call_a, unauthorized)]\<rparr>"

definition two_waiting :: state where
  "two_waiting = (fresh_instance bare)
     \<lparr>queue := [call_a, call_b],
      refreshStore := \<lparr>token = Some ''r1'', delay = 0, exp = 5000000\<rparr>, clock := 3000000\<rparr>"

text \<open>
  Courses of events. In each of them a call arrives, a strategy settles and an exchange
  settles only when the microtask queue is empty, as in a JavaScript engine.

  From \<open>signed_in\<close>: a call is answered 401 and retried behind a generate that fails
  (\<open>stale_header_trace\<close>), or behind a generate that succeeds, after which the call is
  answered 401 again (\<open>double_401_trace\<close>).
\<close>

definition stale_header_trace :: "event list" where
  "stale_header_trace =
     [arrive call_a, Tick, TransportSettle 0 (Inl unauthorized), Tick, Tick,
      OpSettle 0 (Rejects server_error), Tick, Tick, Tick]"

definition double_401_trace :: "event list" where
  "double_401_trace =
     [arrive call_a, Tick, TransportSettle 0 (Inl unauthorized), Tick, Tick,
      OpSettle 0 (Resolves (Some fresh_access) None), Tick, Tick, Tick,
      TransportSettle 0 (Inl unauthorized), Tick]"

text \<open>
  From \<open>renew_running\<close>: the renew is rejected, and so is the refresh that its \<^verbatim>\<open>.catch\<close>
  calls. From \<open>stale_access\<close>: a call starts the renew, the renew is rejected, the refresh
  succeeds.
\<close>

definition all_fail_trace :: "event list" where
  "all_fail_trace =
     [OpSettle 0 (Rejects bad_gateway), Tick, OpSettle 0 (Rejects forbidden), Tick, Tick, Tick]"

definition refresh_chain_trace :: "event list" where
  "refresh_chain_trace =
     [arrive call_a, Tick, OpSettle 0 (Rejects bad_gateway), Tick,
      OpSettle 0 (Resolves (Some fresh_access) None), Tick, Tick, Tick]"

text \<open>
  From \<open>idle_stale\<close>: a call starts the renew, the renew is rejected, a second call is
  queued behind the refresh, and the refresh resolves: having re-established the refresh
  token only (\<open>storm_trace\<close>), or having stored the aged access token as well, after which
  a third call arrives (\<open>aged_token_trace\<close>).
\<close>

definition storm_trace :: "event list" where
  "storm_trace =
     [arrive call_a, Tick, OpSettle 0 (Rejects bad_gateway), Tick, arrive call_b, Tick,
      OpSettle 0 (Resolves None (Some new_refresh)), Tick, Tick, Tick, Tick]"

definition aged_token_trace :: "event list" where
  "aged_token_trace =
     [arrive call_a, Tick, OpSettle 0 (Rejects bad_gateway), Tick, arrive call_b, Tick,
      OpSettle 0 (Resolves (Some aged_access) (Some new_refresh)), Tick, Tick, Tick, Tick,
      arrive call_c, Tick]"

section \<open>Termination of the drain\<close>

lemma queue_generate [simp]: "queue (generate outer s) = queue s"
  by (simp add: generate_def)

lemma queue_renew [simp]: "queue (renew outer s) = queue s"
  by (simp add: renew_def)

lemma queue_refresh [simp]: "queue (refresh outer s) = queue s"
  by (simp add: refresh_def)

lemma queue_resetAccess [simp]: "queue (resetAccess s) = queue s"
  by (simp add: resetAccess_def)

lemma queue_resetRefresh [simp]: "queue (resetRefresh s) = queue s"
  by (simp add: resetRefresh_def)

lemma queue_await_isQueue [simp]: "queue (await_isQueue c r) = queue (snd r)"
  by (simp add: await_isQueue_def)

text \<open>
  A replay never puts a call back into the queue before the drain loop looks at it again:
  the push happens in the continuation, a later microtask. So the queue only shrinks
  inside a drain, which is why the loop ends.
\<close>

lemma drain_shrinks_partial:
  "send_isQueue_runQueue_dom (Inl (c, s)) \<Longrightarrow> length (queue (send c s)) \<le> length (queue s)"
  "send_isQueue_runQueue_dom (Inr (Inl s)) \<Longrightarrow>
     length (queue (snd (isQueue s))) \<le> length (queue s)"
  "send_isQueue_runQueue_dom (Inr (Inr s)) \<Longrightarrow>
     length (queue (runQueue s)) \<le> length (queue s)"
proof (induction c s and s and s rule: send_isQueue_runQueue.pinduct)
  case (1 c s)
  then show ?case by (simp add: send.psimps)
next
  case (2 s)
  then show ?case by (simp add: isQueue.psimps Let_def)
next
  case (3 s)
  show ?case
  proof (cases "queue s")
    case Nil
    with 3(1) show ?thesis by (simp add: runQueue.psimps)
  next
    case (Cons handler rest)
    let ?s' = "send handler (s\<lparr>queue := rest, log := log s @ [Replayed handler]\<rparr>)"
    have a: "length (queue ?s') \<le> length rest"
      using 3(2) [OF Cons] by simp
    show ?thesis
    proof (cases "queue ?s' = []")
      case True
      with 3(1) Cons show ?thesis by (simp add: runQueue.psimps Let_def)
    next
      case False
      have "length (queue (runQueue ?s')) \<le> length (queue ?s')"
        using 3(3) [OF Cons refl False] .
      with a 3(1) Cons False show ?thesis by (simp add: runQueue.psimps Let_def)
    qed
  qed
qed

termination send
proof (relation "measure (\<lambda>x. case x of
          Inl (c, s) \<Rightarrow> 3 * length (queue s) + 2
        | Inr (Inl s) \<Rightarrow> 3 * length (queue s) + 1
        | Inr (Inr s) \<Rightarrow> 3 * length (queue s))", goal_cases)
  case 1
  show ?case by simp
next
  case (2 c s)
  show ?case by simp
next
  case (3 s)
  then show ?case by simp
next
  case (4 s handler rest)
  then show ?case by simp
next
  case (5 s handler rest s')
  then show ?case
    using drain_shrinks_partial(1)
      [of handler "s\<lparr>queue := rest, log := log s @ [Replayed handler]\<rparr>"]
    by simp
qed

declare send.simps [simp del] isQueue.simps [simp del] runQueue.simps [simp del]

section \<open>General facts about admission and drain\<close>

text \<open>The two cases of the loop, and its result: the queue is empty.\<close>

lemma runQueue_Nil: "queue s = [] \<Longrightarrow> runQueue s = s"
  by (simp add: runQueue.simps)

lemma runQueue_Cons:
  "queue s = handler # rest \<Longrightarrow>
   runQueue s =
     (let s' = send handler (s\<lparr>queue := rest, log := log s @ [Replayed handler]\<rparr>)
      in if queue s' \<noteq> [] then runQueue s' else s')"
  by (simp add: runQueue.simps)

lemma queue_runQueue [simp]: "queue (runQueue s) = []"
proof (rule send_isQueue_runQueue.induct(3)
    [where P = "\<lambda>_ _. True" and Q = "\<lambda>_. True" and R = "\<lambda>s. queue (runQueue s) = []"],
    goal_cases)
  case (3 s)
  show ?case
  proof (cases "queue s")
    case Nil
    then show ?thesis by (simp add: runQueue_Nil)
  next
    case (Cons handler rest)
    then show ?thesis
      using 3(2) [OF Cons refl] by (simp add: runQueue_Cons Let_def)
  qed
qed simp_all

text \<open>Reading a log or a task list piece by piece.\<close>

lemma invocations_append [simp]: "invocations (xs @ ys) = invocations xs @ invocations ys"
  by (simp add: invocations_def)

lemma invocations_single [simp]:
  "invocations [Replayed c] = []" "invocations [Invoked k] = [k]"
  by (simp_all add: invocations_def)

lemma invocations_more [simp]:
  "invocations [Fetched c opt] = []" "invocations [Finalized k] = []"
  "invocations [Retried c] = []" "invocations [ChainSettled r] = []"
  by (simp_all add: invocations_def)

lemma replays_append [simp]: "replays (xs @ ys) = replays xs @ replays ys"
  by (simp add: replays_def)

lemma replays_single [simp]:
  "replays [Replayed c] = [c]" "replays [Invoked k] = []" "replays [Finalized k] = []"
  "replays [Retried c] = []"
  by (simp_all add: replays_def)

lemma retries_append [simp]: "retries (xs @ ys) = retries xs @ retries ys"
  by (simp add: retries_def)

lemma retries_single [simp]:
  "retries [Replayed c] = []" "retries [Invoked k] = []" "retries [Retried c] = [c]"
  "retries [Hooked c e] = []" "retries [Failed n e] = []"
  by (simp_all add: retries_def)

lemma failures_append [simp]: "failures (xs @ ys) = failures xs @ failures ys"
  by (simp add: failures_def)

lemma failures_single [simp]:
  "failures [Replayed c] = []" "failures [Invoked k] = []" "failures [Retried c] = []"
  "failures [Hooked c e] = []" "failures [Failed n e] = [(n, e)]"
  by (simp_all add: failures_def)

lemma finalizations_append [simp]:
  "finalizations (xs @ ys) = finalizations xs @ finalizations ys"
  by (simp add: finalizations_def)

lemma finalizations_single [simp]:
  "finalizations [Replayed c] = []" "finalizations [Invoked k] = []"
  "finalizations [Finalized k] = [k]" "finalizations [ChainSettled r] = []"
  by (simp_all add: finalizations_def)

lemma conts_append [simp]: "conts (xs @ ys) = conts xs @ conts ys"
  by (simp add: conts_def)

lemma conts_single [simp]: "conts [SendCont c q] = [(c, q)]" "conts [OpFinally fr r] = []"
  by (simp_all add: conts_def)


text \<open>The resets change neither the validity of the other paths nor \<open>pending\<close>.\<close>

lemma valid_after_reset:
  "refreshValid t (resetAccess s) = refreshValid t s"
  "generateValid (resetAccess s) = generateValid s"
  "generateValid (resetRefresh s) = generateValid s"
  "pending (resetAccess s) = pending s" "pending (resetRefresh s) = pending s"
  by (simp_all add: refreshValid_def generateValid_def resetAccess_def resetRefresh_def)

text \<open>
  What the elementary updates keep, the whole of \<^verbatim>\<open>send\<close>, \<^verbatim>\<open>isQueue\<close> and \<^verbatim>\<open>runQueue\<close>
  keeps: the objects passed as options, the exchanges in flight, the configuration, the
  \<^verbatim>\<open>.finally\<close> handlers that have run, and the list of the calls replayed so far followed
  by the calls still queued.
\<close>

lemma drain_stable_all:
  assumes "drain_stable f"
  shows "f (send c s) = f s" "f (snd (isQueue s)) = f s" "f (runQueue s) = f s"
proof (induction c s and s and s rule: send_isQueue_runQueue.induct)
  case (1 c s)
  then show ?case using assms by (simp add: send.simps await_isQueue_def drain_stable_def)
next
  case (2 s)
  then show ?case using assms by (simp add: isQueue.simps [of s] Let_def drain_stable_def)
next
  case (3 s)
  show ?case
  proof (cases "queue s")
    case Nil
    then show ?thesis by (simp add: runQueue_Nil)
  next
    case (Cons handler rest)
    have a: "f (s\<lparr>queue := rest, log := log s @ [Replayed handler]\<rparr>) = f s"
      using assms Cons by (simp add: drain_stable_def)
    show ?thesis
      using 3(1) [OF Cons] 3(2) [OF Cons refl] Cons a by (simp add: runQueue_Cons Let_def)
  qed
qed



lemma drain_stable_hooks: "drain_stable hooks"
  by (simp add: drain_stable_def resetAccess_def resetRefresh_def renew_def refresh_def
      generate_def)

lemma drain_stable_config: "drain_stable config"
  by (simp add: drain_stable_def resetAccess_def resetRefresh_def renew_def refresh_def
      generate_def)

lemma drain_stable_finalizations: "drain_stable (\<lambda>s. finalizations (log s))"
  by (simp add: drain_stable_def resetAccess_def resetRefresh_def renew_def refresh_def
      generate_def)


text \<open>No operation is started while \<open>pending\<close> is not \<open>NONE\<close>.\<close>

lemma guarded_start:
  "pending s \<noteq> NONE \<Longrightarrow>
     ops (send c s) = ops s \<and> pending (send c s) \<noteq> NONE \<and>
     invocations (log (send c s)) = invocations (log s)"
  "pending s \<noteq> NONE \<Longrightarrow>
     ops (snd (isQueue s)) = ops s \<and> pending (snd (isQueue s)) \<noteq> NONE \<and>
     invocations (log (snd (isQueue s))) = invocations (log s)"
  "pending s \<noteq> NONE \<Longrightarrow>
     ops (runQueue s) = ops s \<and> pending (runQueue s) \<noteq> NONE \<and>
     invocations (log (runQueue s)) = invocations (log s)"
proof (induction c s and s and s rule: send_isQueue_runQueue.induct)
  case (1 c s)
  then show ?case by (simp add: send.simps await_isQueue_def)
next
  case (2 s)
  then show ?case
    by (simp add: isQueue.simps [of s] Let_def resetAccess_def resetRefresh_def)
next
  case (3 s)
  show ?case
  proof (cases "queue s")
    case Nil
    with 3(3) show ?thesis by (simp add: runQueue_Nil)
  next
    case (Cons handler rest)
    let ?s1 = "s\<lparr>queue := rest, log := log s @ [Replayed handler]\<rparr>"
    have a: "ops (send handler ?s1) = ops s \<and> pending (send handler ?s1) \<noteq> NONE \<and>
        invocations (log (send handler ?s1)) = invocations (log s)"
      using 3(1) [OF Cons] 3(3) by simp
    show ?thesis
    proof (cases "queue (send handler ?s1) = []")
      case True
      with a Cons show ?thesis by (simp add: runQueue_Cons Let_def)
    next
      case False
      with a Cons 3(2) [OF Cons refl False] show ?thesis by (simp add: runQueue_Cons Let_def)
    qed
  qed
qed

text \<open>
  The drain when no recovery path is left: every queued call is replayed and proceeds.
  The admission of each replay drains the rest of the queue before its own continuation
  is queued, so the continuations stand in reverse order.
\<close>

lemma dead_end_drain:
  assumes "pending s \<noteq> SYNC"
    and "accessStore s = \<lparr>token = None, delay = 0, exp = 0\<rparr>"
    and "refreshStore s = \<lparr>token = None, delay = 0, exp = 0\<rparr>"
    and "\<not> generateValid s"
    and "queue s = q"
  shows "runQueue s = s\<lparr>queue := [], log := log s @ map Replayed q,
           microtasks := microtasks s @ map (\<lambda>c. SendCont c False) (rev q)\<rparr>"
  using assms
proof (induction q arbitrary: s)
  case Nil
  then show ?case by (simp add: runQueue_Nil)
next
  case (Cons handler rest)
  let ?s1 = "s\<lparr>queue := rest, log := log s @ [Replayed handler]\<rparr>"
  have r1: "resetAccess ?s1 = ?s1" "resetRefresh ?s1 = ?s1"
    using Cons.prems by (simp_all add: resetAccess_def resetRefresh_def)
  have d: "runQueue ?s1 = ?s1\<lparr>queue := [], log := log ?s1 @ map Replayed rest,
           microtasks := microtasks ?s1 @ map (\<lambda>c. SendCont c False) (rev rest)\<rparr>"
    using Cons.prems by (intro Cons.IH) (simp_all add: generateValid_def)
  have "\<not> exp (accessStore ?s1) > Date_now ?s1" "\<not> refreshValid (Date_now ?s1) ?s1"
    "\<not> generateValid ?s1" "pending ?s1 \<noteq> SYNC"
    using Cons.prems by (simp_all add: Date_now_def refreshValid_def generateValid_def)
  then have "isQueue ?s1 = (False, runQueue ?s1)"
    by (simp add: isQueue.simps [of ?s1] Let_def r1)
  then have "send handler ?s1 = (runQueue ?s1)
      \<lparr>microtasks := microtasks (runQueue ?s1) @ [SendCont handler False]\<rparr>"
    by (simp add: send.simps await_isQueue_def)
  with d Cons.prems show ?case
    by (simp add: runQueue_Cons [of s handler rest] Let_def)
qed

text \<open>
  Admission of a retry: the access store has just been reset and refresh or generate is
  available, so the call is queued and \<open>pending\<close> is \<open>SYNC\<close> afterwards.
\<close>

lemma retry_admission:
  assumes "refreshValid (Date_now s) s \<or> generateValid s"
    and "accessStore s = \<lparr>token = None, delay = 0, exp = 0\<rparr>"
  shows "fst (isQueue s)" "microtasks (snd (isQueue s)) = microtasks s"
    "accessStore (snd (isQueue s)) = \<lparr>token = None, delay = 0, exp = 0\<rparr>"
    "retries (log (snd (isQueue s))) = retries (log s)"
    "failures (log (snd (isQueue s))) = failures (log s)"
    "pending (snd (isQueue s)) = SYNC"
  using assms
  by (auto simp add: isQueue.simps [of s] Let_def Date_now_def refreshValid_def
      generateValid_def refresh_def generate_def resetAccess_def resetRefresh_def)


text \<open>The definitions that evaluate a course of events on an example instance.\<close>

lemmas eval_defs =
  step_def send.simps isQueue.simps runQueue.simps
  Date_now_def renewValid_def refreshValid_def generateValid_def generate_def renew_def
  refresh_def resetAccess_def resetRefresh_def await_isQueue_def run_task_def send_resume_def
  Fetch_send_def settle_op_def settle_transport_def settle_hook_def hook_resume_def op_catch_def generate_catch_def
  renew_catch_def refresh_catch_def op_finally_def handleErrors_def Let_def

section \<open>Mutual exclusion of the credential operations\<close>

text \<open>
  C1 says that at most one credential operation is in flight at any time. It fails after a
  fallback: the \<^verbatim>\<open>.finally\<close> handler of the enclosing operation sets \<open>pending\<close> to \<open>NONE\<close>
  although a replay of the drain before it has started a new operation.

  First course: a call starts a background renew, which fails; the refresh that follows
  re-establishes the refresh token only, while a second call waits in the queue. The
  \<^verbatim>\<open>.finally\<close> of refresh replays the waiting call, whose admission starts a second
  refresh; the \<^verbatim>\<open>.finally\<close> of renew resets \<open>pending\<close> and replays the call once more, and
  its admission starts a third refresh while the second is in flight.

  Second course: the refresh stores an access token that is valid but was issued 20
  minutes ago. The replay starts a renew and proceeds; the \<^verbatim>\<open>.finally\<close> of the first renew
  resets \<open>pending\<close> while that renew is in flight, and the next call starts another one.
  Every call, and every settlement, happens with an empty microtask queue.
\<close>

theorem two_operations_in_flight:
  "ops (exec storm_trace idle_stale) = [(Refresh, []), (Refresh, [])] \<and>
   invocations (log (exec storm_trace idle_stale)) = [Renew, Refresh, Refresh, Refresh] \<and>
   finalizations (log (exec storm_trace idle_stale)) = [Refresh, Renew] \<and>
   ops (exec (take 10 storm_trace) idle_stale) = [(Refresh, [])] \<and>
   pending (exec (take 10 storm_trace) idle_stale) = SYNC \<and>
   microtasks (exec (take 10 storm_trace) idle_stale) = [OpFinally [Renew] Fulfilled] \<and>
   microtasks (exec (take 2 storm_trace) idle_stale) = [] \<and>
   microtasks (exec (take 4 storm_trace) idle_stale) = [] \<and>
   microtasks (exec (take 6 storm_trace) idle_stale) = [] \<and>
   ops (exec aged_token_trace idle_stale) = [(Renew, []), (Renew, [])] \<and>
   invocations (log (exec aged_token_trace idle_stale)) = [Renew, Refresh, Renew, Renew] \<and>
   ops (exec (take 11 aged_token_trace) idle_stale) = [(Renew, [])] \<and>
   pending (exec (take 11 aged_token_trace) idle_stale) = NONE \<and>
   microtasks (exec (take 11 aged_token_trace) idle_stale) = []"
  by (simp add: storm_trace_def aged_token_trace_def idle_stale_def fresh_instance_def
      renew_and_refresh_def arrive_def call_a_def call_b_def call_c_def bad_gateway_def
      new_refresh_def aged_access_def eval_defs invocations_def finalizations_def)

text \<open>
  The part of C1 about generate holds: when the instance is idle, both stores are invalid
  and generate is available, any number of calls, with their continuations and the passing
  of time in between, invoke \<^verbatim>\<open>config.generate\<close> exactly once until it settles.
\<close>

lemma quiet_after_trigger:
  "pending s = SYNC \<Longrightarrow> only_conts (microtasks s) \<Longrightarrow> list_all quiet evs \<Longrightarrow>
   invocations (log (exec evs s)) = invocations (log s) \<and> ops (exec evs s) = ops s \<and>
   pending (exec evs s) = SYNC"
proof (induction evs arbitrary: s)
  case Nil
  then show ?case by simp
next
  case (Cons ev evs)
  have "pending (step ev s) = SYNC \<and> only_conts (microtasks (step ev s)) \<and>
      invocations (log (step ev s)) = invocations (log s) \<and> ops (step ev s) = ops s"
  proof (cases ev)
    case (Call cid u r)
    with Cons.prems show ?thesis
      by (simp add: step_def send.simps isQueue.simps [of s] await_isQueue_def only_conts_def)
  next
    case Tick
    show ?thesis
    proof (cases "microtasks s")
      case Nil
      with Tick Cons.prems show ?thesis by (simp add: step_def)
    next
      case (Cons t ts)
      with Tick Cons.prems(1,2) show ?thesis
        by (cases t)
          (simp_all add: step_def run_task_def send_resume_def Fetch_send_def only_conts_def
            split: option.split)
    qed
  next
    case (Advance d)
    with Cons.prems show ?thesis by (simp add: step_def)
  next
    case (OpSettle i out)
    with Cons.prems show ?thesis by (simp add: quiet_def)
  next
    case (TransportSettle i out)
    with Cons.prems show ?thesis by (simp add: quiet_def)
  next
    case (HookSettle i out)
    with Cons.prems show ?thesis by (simp add: quiet_def)
  qed
  with Cons.prems(3) Cons.IH [of "step ev s"] show ?case by simp
qed

lemma generate_once:
  assumes "pending s = NONE" and "only_conts (microtasks s)"
    and "exp (accessStore s) \<le> Date_now s" and "\<not> refreshValid (Date_now s) s"
    and "generateValid s"
    and "list_all quiet evs" and "list_ex is_call evs"
  shows "invocations (log (exec evs s)) = invocations (log s) @ [Generate] \<and>
         ops (exec evs s) = ops s @ [(Generate, [])]"
  using assms
proof (induction evs arbitrary: s)
  case Nil
  then show ?case by simp
next
  case (Cons ev evs)
  show ?case
  proof (cases ev)
    case (Call cid u r)
    let ?c = "\<lparr>caller = cid, url = u, opts = r\<rparr>"
    have a: "isQueue s = (True, (generate [] (resetRefresh (resetAccess s)))\<lparr>pending := SYNC\<rparr>)"
      using Cons.prems(1,3,4,5)
      by (simp add: isQueue.simps [of s] Let_def valid_after_reset)
    have "pending (step ev s) = SYNC \<and> only_conts (microtasks (step ev s)) \<and>
      invocations (log (step ev s)) = invocations (log s) @ [Generate] \<and>
      ops (step ev s) = ops s @ [(Generate, [])]"
      using Cons.prems(2,5) Call a
      by (simp add: step_def send.simps await_isQueue_def generate_def generateValid_def
          resetAccess_def resetRefresh_def only_conts_def)
    with Cons.prems(6) quiet_after_trigger [of "step ev s" evs] show ?thesis by simp
  next
    case Tick
    have "pending (step ev s) = NONE \<and> only_conts (microtasks (step ev s)) \<and>
      accessStore (step ev s) = accessStore s \<and> refreshStore (step ev s) = refreshStore s \<and>
      config (step ev s) = config s \<and> clock (step ev s) = clock s \<and>
      invocations (log (step ev s)) = invocations (log s) \<and> ops (step ev s) = ops s"
    proof (cases "microtasks s")
      case Nil
      with Tick Cons.prems show ?thesis by (simp add: step_def)
    next
      case (Cons t ts)
      with Tick Cons.prems(1,2) show ?thesis
        by (cases t)
          (simp_all add: step_def run_task_def send_resume_def Fetch_send_def only_conts_def
            split: option.split)
    qed
    moreover have "\<not> is_call ev" using Tick by (simp add: is_call_def)
    with Cons.prems(7) have "list_ex is_call evs" by simp
    ultimately show ?thesis
      using Cons.prems(3,4,5,6) Cons.IH [of "step ev s"]
      by (simp add: Date_now_def refreshValid_def generateValid_def)
  next
    case (Advance d)
    have "\<not> is_call ev" using Advance by (simp add: is_call_def)
    with Cons.prems(7) have c: "list_ex is_call evs" by simp
    have st: "step ev s = s\<lparr>clock := clock s + d\<rparr>" using Advance by (simp add: step_def)
    have "exp (accessStore (step ev s)) \<le> Date_now (step ev s)"
      "\<not> refreshValid (Date_now (step ev s)) (step ev s)"
      using Cons.prems(3,4) by (auto simp add: st Date_now_def refreshValid_def)
    with Cons.prems(1,2,5,6) c Cons.IH [of "step ev s"] show ?thesis
      by (simp add: st generateValid_def)
  next
    case (OpSettle i out)
    with Cons.prems show ?thesis by (simp add: quiet_def)
  next
    case (TransportSettle i out)
    with Cons.prems show ?thesis by (simp add: quiet_def)
  next
    case (HookSettle i out)
    with Cons.prems show ?thesis by (simp add: quiet_def)
  qed
qed

text \<open>
  What does hold of the first part of C1: as long as no renew and no refresh is rejected,
  so that no fallback is taken, at most one credential operation is in flight at any time,
  whatever the calls, the strategies and the transport do, and in whatever order
  (\<open>exclusive_without_fallback\<close>, at the end of this section; a new instance is
  \<open>exclusive\<close>).
\<close>

lemma settling_simps [simp]:
  "settling [] = 0" "settling (xs @ ys) = settling xs + settling ys"
  "settling (SendCont c q # ts) = settling ts"
  "settling (OpCatch k outer r # ts) = Suc (settling ts)"
  "settling (OpFinally frames r # ts) = Suc (settling ts)"
  "settling (HandleErrors c e # ts) = settling ts"
  "settling (HookCont c e out # ts) = settling ts"
  "settling (Deliver c resp # ts) = settling ts"
  by (simp_all add: settling_def)

lemma unchained_simps [simp]:
  "unchained (SendCont c q)" "unchained (HandleErrors c e)" "unchained (Deliver c resp)"
  "unchained (HookCont c e out)"
  "unchained (OpCatch k outer r) \<longleftrightarrow> outer = [] \<and> (r = Fulfilled \<or> k = Generate)"
  "unchained (OpFinally frames r) \<longleftrightarrow> length frames = 1"
  by (simp_all add: unchained_def)

lemma drain_stable_settling: "drain_stable (\<lambda>s. settling (microtasks s))"
  by (simp add: drain_stable_def resetAccess_def resetRefresh_def renew_def refresh_def
      generate_def)

lemma drain_stable_unchained: "drain_stable (\<lambda>s. list_all unchained (microtasks s))"
  by (simp add: drain_stable_def resetAccess_def resetRefresh_def renew_def refresh_def
      generate_def)

lemma started_refl: "started s s"
  by (simp add: started_def)

lemma started_trans: "started s s' \<Longrightarrow> started s' s'' \<Longrightarrow> started s s''"
  by (auto simp add: started_def split: if_splits)

lemma started_from:
  "started s0 s' \<Longrightarrow> ops s0 = ops s \<Longrightarrow> pending s0 = pending s \<Longrightarrow> started s s'"
  by (auto simp add: started_def split: if_splits)

lemma start_at_most_one:
  "started s (send c s)" "started s (snd (isQueue s))" "started s (runQueue s)"
proof (induction c s and s and s rule: send_isQueue_runQueue.induct)
  case (1 c s)
  then show ?case by (auto simp add: send.simps await_isQueue_def started_def split: if_splits)
next
  case (2 s)
  show ?case
  proof (cases "pending s = SYNC \<or> exp (accessStore s) > Date_now s \<or>
      refreshValid (Date_now s) (resetAccess s) \<or> generateValid (resetRefresh (resetAccess s))")
    case True
    then show ?thesis
      by (auto simp add: isQueue.simps [of s] Let_def started_def renew_def refresh_def
          generate_def resetAccess_def resetRefresh_def refreshValid_def generateValid_def
          renewValid_def)
  next
    case False
    then have "started (resetRefresh (resetAccess s)) (runQueue (resetRefresh (resetAccess s)))"
      using 2 by simp
    then have "started s (runQueue (resetRefresh (resetAccess s)))"
      by (rule started_from) (simp_all add: resetAccess_def resetRefresh_def)
    with False show ?thesis by (simp add: isQueue.simps [of s] Let_def)
  qed
next
  case (3 s)
  show ?case
  proof (cases "queue s")
    case Nil
    then show ?thesis by (simp add: runQueue_Nil started_refl)
  next
    case (Cons handler rest)
    let ?s1 = "s\<lparr>queue := rest, log := log s @ [Replayed handler]\<rparr>"
    have "started ?s1 (send handler ?s1)" using 3(1) [OF Cons] .
    then have a: "started s (send handler ?s1)" by (rule started_from) simp_all
    show ?thesis
    proof (cases "queue (send handler ?s1) = []")
      case True
      with a Cons show ?thesis by (simp add: runQueue_Cons Let_def)
    next
      case False
      from started_trans [OF a 3(2) [OF Cons refl False]] Cons False show ?thesis
        by (simp add: runQueue_Cons Let_def)
    qed
  qed
qed

lemma exclusive_start:
  assumes "exclusive s" and "started s s'"
    and "settling (microtasks s') = settling (microtasks s)"
    and "list_all unchained (microtasks s')"
  shows "exclusive s'"
  using assms by (auto simp add: exclusive_def started_def split: if_splits)

lemma exclusive_send:
  assumes "exclusive s"
  shows "exclusive (send c s)"
proof (rule exclusive_start [OF assms start_at_most_one(1)])
  show "settling (microtasks (send c s)) = settling (microtasks s)"
    using drain_stable_all(1) [OF drain_stable_settling] .
  show "list_all unchained (microtasks (send c s))"
    using drain_stable_all(1) [OF drain_stable_unchained, of c s] assms
    by (simp add: exclusive_def)
qed

lemma exclusive_runQueue:
  assumes "exclusive s"
  shows "exclusive (runQueue s)"
proof (rule exclusive_start [OF assms start_at_most_one(3)])
  show "settling (microtasks (runQueue s)) = settling (microtasks s)"
    using drain_stable_all(3) [OF drain_stable_settling] .
  show "list_all unchained (microtasks (runQueue s))"
    using drain_stable_all(3) [OF drain_stable_unchained, of s] assms
    by (simp add: exclusive_def)
qed

lemma exclusive_task:
  assumes "exclusive s" and "microtasks s = t # ts"
  shows "exclusive (run_task t (s\<lparr>microtasks := ts\<rparr>))"
proof (cases t)
  case (SendCont c q)
  with assms show ?thesis
    by (auto simp add: run_task_def send_resume_def Fetch_send_def exclusive_def
        split: option.split)
next
  case (OpCatch k outer r)
  with assms show ?thesis
    by (auto simp add: run_task_def op_catch_def generate_catch_def exclusive_def
        split: settled.split)
next
  case (OpFinally frames r)
  with assms obtain k where fr: "frames = [k]"
    by (cases frames) (auto simp add: exclusive_def)
  let ?s2 = "s\<lparr>microtasks := ts, pending := NONE, log := log s @ [Finalized k]\<rparr>"
  have "exclusive ?s2" using assms OpFinally by (auto simp add: exclusive_def)
  from exclusive_runQueue [OF this] have "exclusive ((runQueue ?s2)\<lparr>log := log (runQueue ?s2) @ [ChainSettled r]\<rparr>)"
    by (simp add: exclusive_def)
  with OpFinally fr show ?thesis by (simp add: run_task_def op_finally_def Let_def)
next
  case (HandleErrors c e)
  let ?s1 = "s\<lparr>microtasks := ts\<rparr>"
  have e1: "exclusive ?s1" using assms HandleErrors by (auto simp add: exclusive_def)
  then have e2: "exclusive ((resetAccess ?s1)\<lparr>log := log (resetAccess ?s1) @ [Retried c]\<rparr>)"
    by (simp add: exclusive_def resetAccess_def)
  show ?thesis
    using e1 exclusive_send [OF e2, of c] HandleErrors
    by (auto simp add: run_task_def handleErrors_def Let_def exclusive_def resetAccess_def)
next
  case (HookCont c e out)
  with assms show ?thesis by (auto simp add: run_task_def hook_resume_def exclusive_def)
next
  case (Deliver c resp)
  with assms show ?thesis by (auto simp add: run_task_def exclusive_def)
qed

lemma exclusive_step:
  assumes "exclusive s" and "no_fallback s ev"
  shows "exclusive (step ev s)"
proof (cases ev)
  case (Call cid u r)
  with exclusive_send [OF assms(1)] show ?thesis by (simp add: step_def)
next
  case Tick
  show ?thesis
  proof (cases "microtasks s")
    case Nil
    with Tick assms show ?thesis by (simp add: step_def)
  next
    case (Cons t ts)
    with Tick exclusive_task [OF assms(1) Cons] show ?thesis by (simp add: step_def)
  qed
next
  case (Advance d)
  with assms show ?thesis by (simp add: step_def exclusive_def)
next
  case (OpSettle i out)
  show ?thesis
  proof (cases "i < length (ops s)")
    case False
    with OpSettle assms show ?thesis by (simp add: step_def settle_op_def)
  next
    case True
    with assms(1) obtain op where o: "ops s = [op]" "i = 0" "snd op = []"
      "settling (microtasks s) = 0" "pending s \<noteq> NONE"
      by (cases "ops s") (auto simp add: exclusive_def)
    with assms OpSettle show ?thesis
      by (auto simp add: step_def settle_op_def Let_def exclusive_def no_fallback_def
          split: op_outcome.split)
  qed
next
  case (TransportSettle i out)
  with assms show ?thesis
    by (auto simp add: step_def settle_transport_def exclusive_def split: sum.split)
next
  case (HookSettle i out)
  with assms show ?thesis by (auto simp add: step_def settle_hook_def exclusive_def)
qed

lemma exclusive_without_fallback:
  "exclusive s \<Longrightarrow> no_fallbacks s evs \<Longrightarrow>
   exclusive (exec evs s) \<and> length (ops (exec evs s)) \<le> 1"
proof (induction evs arbitrary: s)
  case Nil
  then show ?case by (simp add: exclusive_def)
next
  case (Cons ev evs)
  then show ?case using exclusive_step [of s ev] by simp
qed

lemma exclusive_fresh_instance: "exclusive (fresh_instance cfg)"
  by (simp add: exclusive_def fresh_instance_def)

section \<open>The fallback chain\<close>

text \<open>
  Renew fails with a 502, the refresh that follows fails with a 403, and generate is not
  available: the promise of the renew operation is rejected with the 403 of the refresh,
  not with the error that started the chain.
\<close>

theorem last_error_counterexample:
  "log (exec all_fail_trace renew_running) =
     [Invoked Refresh, Finalized Refresh, Finalized Renew, ChainSettled (Rejected forbidden)] \<and>
   forbidden \<noteq> bad_gateway"
  by (simp add: all_fail_trace_def renew_running_def idle_stale_def fresh_instance_def renew_and_refresh_def
      bad_gateway_def forbidden_def eval_defs)

lemma last_error_wins:
  assumes "ops s = [(Renew, [])]" and "microtasks s = []" and "queue s = []"
    and "refreshValid (Date_now s) s" and "\<not> generateValid s"
  shows "log (exec [OpSettle 0 (Rejects e1), Tick, OpSettle 0 (Rejects e2), Tick, Tick, Tick] s) =
     log s @ [Invoked Refresh, Finalized Refresh, Finalized Renew, ChainSettled (Rejected e2)]"
proof -
  have c: "has_refresh (config s)" "exp (refreshStore s) > int (clock s)"
    "\<not> (has_generate (config s) \<and> connected (config s))"
    using assms by (simp_all add: refreshValid_def generateValid_def Date_now_def)
  show ?thesis
    using assms(1-3) c
    by (simp add: step_def settle_op_def run_task_def op_catch_def renew_catch_def
      refresh_catch_def op_finally_def refresh_def resetAccess_def resetRefresh_def
      refreshValid_def generateValid_def Date_now_def runQueue_Nil Let_def del: de_Morgan_conj)
qed

text \<open>
  C2, as the code has it. A failed renew resets the access store; it then starts refresh if
  \<open>refreshValid(now)\<close> holds, else resets the refresh store and starts generate if
  \<open>generateValid()\<close> holds, else rethrows its own error. A failed refresh resets the refresh
  store and starts generate if \<open>generateValid()\<close> holds, else rethrows its own error. A
  failed generate sets \<open>connected\<close> to false and rethrows its own error. The \<^verbatim>\<open>.finally\<close>
  handlers hand the outcome on unchanged, so a chain in which every step fails is rejected
  with the error of the last operation that was tried.
\<close>

theorem fallback_chain:
  "accessStore (renew_catch outer e s) = \<lparr>token = None, delay = 0, exp = 0\<rparr> \<and>
   (if refreshValid (Date_now s) s
    then refreshStore (renew_catch outer e s) = refreshStore s \<and>
         ops (renew_catch outer e s) = ops s @ [(Refresh, Renew # outer)] \<and>
         invocations (log (renew_catch outer e s)) = invocations (log s) @ [Refresh] \<and>
         microtasks (renew_catch outer e s) = microtasks s
    else refreshStore (renew_catch outer e s) = \<lparr>token = None, delay = 0, exp = 0\<rparr> \<and>
      (if generateValid s
       then ops (renew_catch outer e s) = ops s @ [(Generate, Renew # outer)] \<and>
            invocations (log (renew_catch outer e s)) = invocations (log s) @ [Generate] \<and>
            microtasks (renew_catch outer e s) = microtasks s
       else ops (renew_catch outer e s) = ops s \<and>
            log (renew_catch outer e s) = log s \<and>
            microtasks (renew_catch outer e s) =
              microtasks s @ [OpFinally (Renew # outer) (Rejected e)])) \<and>
   accessStore (refresh_catch outer e s) = accessStore s \<and>
   refreshStore (refresh_catch outer e s) = \<lparr>token = None, delay = 0, exp = 0\<rparr> \<and>
   (if generateValid s
    then ops (refresh_catch outer e s) = ops s @ [(Generate, Refresh # outer)] \<and>
         invocations (log (refresh_catch outer e s)) = invocations (log s) @ [Generate] \<and>
         microtasks (refresh_catch outer e s) = microtasks s
    else ops (refresh_catch outer e s) = ops s \<and>
         log (refresh_catch outer e s) = log s \<and>
         microtasks (refresh_catch outer e s) =
           microtasks s @ [OpFinally (Refresh # outer) (Rejected e)]) \<and>
   connected (config (generate_catch outer e s)) = False \<and>
   ops (generate_catch outer e s) = ops s \<and>
   log (generate_catch outer e s) = log s \<and>
   microtasks (generate_catch outer e s) =
     microtasks s @ [OpFinally (Generate # outer) (Rejected e)] \<and>
   (if frames = [] then log (op_finally [k] r s) =
          log (runQueue (s\<lparr>pending := NONE, log := log s @ [Finalized k]\<rparr>)) @ [ChainSettled r]
    else microtasks (op_finally (k # frames) r s) =
          microtasks (runQueue (s\<lparr>pending := NONE, log := log s @ [Finalized k]\<rparr>)) @
          [OpFinally frames r]) \<and>
   (ops s = [(Renew, [])] \<and> microtasks s = [] \<and> queue s = [] \<and>
    refreshValid (Date_now s) s \<and> \<not> generateValid s \<longrightarrow>
      log (exec [OpSettle 0 (Rejects e), Tick, OpSettle 0 (Rejects e'), Tick, Tick, Tick] s) =
        log s @ [Invoked Refresh, Finalized Refresh, Finalized Renew,
                 ChainSettled (Rejected e')])"
proof -
  have "ops s = [(Renew, [])] \<and> microtasks s = [] \<and> queue s = [] \<and>
    refreshValid (Date_now s) s \<and> \<not> generateValid s \<longrightarrow>
      log (exec [OpSettle 0 (Rejects e), Tick, OpSettle 0 (Rejects e'), Tick, Tick, Tick] s) =
        log s @ [Invoked Refresh, Finalized Refresh, Finalized Renew,
                 ChainSettled (Rejected e')]"
    using last_error_wins [of s e e'] by blast
  then show ?thesis
    by (simp add: renew_catch_def refresh_catch_def generate_catch_def op_finally_def Let_def
        refreshValid_def generateValid_def refresh_def generate_def resetAccess_def
        resetRefresh_def Date_now_def)
qed

theorem fallback_chain_witness:
  "ops renew_running = [(Renew, [])] \<and> microtasks renew_running = [] \<and>
   queue renew_running = [] \<and> refreshValid (Date_now renew_running) renew_running \<and>
   \<not> generateValid renew_running \<and>
   log (exec [OpSettle 0 (Rejects server_error), Tick, OpSettle 0 (Rejects unauthorized),
              Tick, Tick, Tick] renew_running) =
     [Invoked Refresh, Finalized Refresh, Finalized Renew, ChainSettled (Rejected unauthorized)] \<and>
   accessStore (renew_catch [] server_error renew_running) = \<lparr>token = None, delay = 0, exp = 0\<rparr> \<and>
   ops (renew_catch [] server_error renew_running) = [(Renew, []), (Refresh, [Renew])]"
  using fallback_chain [of "[]" server_error renew_running "[]" Renew Fulfilled unauthorized]
  by (simp add: renew_running_def idle_stale_def fresh_instance_def renew_and_refresh_def refreshValid_def
      generateValid_def Date_now_def)

section \<open>The \<^verbatim>\<open>.finally\<close> handlers of a chain\<close>

text \<open>
  C3 says that the reset of \<open>pending\<close> and the drain run exactly once per top-level
  admission trigger, after the whole chain has settled. Here one call starts a background
  renew (the only operation that admission starts), the renew fails and the refresh that
  follows succeeds: \<open>pending\<close> is reset and the queue is drained twice, by the \<^verbatim>\<open>.finally\<close>
  of refresh and then by the \<^verbatim>\<open>.finally\<close> of renew.
\<close>

theorem finally_runs_twice:
  "invocations (log (exec refresh_chain_trace stale_access)) = [Renew, Refresh] \<and>
   finalizations (log (exec refresh_chain_trace stale_access)) = [Refresh, Renew] \<and>
   microtasks (exec refresh_chain_trace stale_access) = []"
  by (simp add: refresh_chain_trace_def stale_access_def fresh_instance_def all_strategies_def
      arrive_def call_a_def bad_gateway_def fresh_access_def eval_defs
      invocations_def finalizations_def)

lemma finally_rounds:
  "frames \<noteq> [] \<Longrightarrow> microtasks s = [OpFinally frames r] \<Longrightarrow> queue s = [] \<Longrightarrow>
   exec (replicate (length frames) Tick) s =
     s\<lparr>pending := NONE, microtasks := [],
       log := log s @ map Finalized frames @ [ChainSettled r]\<rparr>"
proof (induction frames arbitrary: s)
  case Nil
  then show ?case by simp
next
  case (Cons k outer)
  show ?case
  proof (cases "outer = []")
    case True
    with Cons.prems show ?thesis
      by (simp add: step_def run_task_def op_finally_def runQueue_Nil)
  next
    case False
    let ?s1 = "s\<lparr>pending := NONE, log := log s @ [Finalized k],
      microtasks := [OpFinally outer r]\<rparr>"
    have "step Tick s = ?s1"
      using Cons.prems False by (simp add: step_def run_task_def op_finally_def runQueue_Nil)
    moreover have "exec (replicate (length outer) Tick) ?s1 =
        ?s1\<lparr>pending := NONE, microtasks := [],
          log := log ?s1 @ map Finalized outer @ [ChainSettled r]\<rparr>"
      using Cons.prems False by (intro Cons.IH) simp_all
    ultimately show ?thesis by simp
  qed
qed

text \<open>
  How the handlers run in the code: every operation of a chain has its own \<^verbatim>\<open>.finally\<close>
  handler. Each one sets \<open>pending\<close> to \<open>NONE\<close> and drains the queue, the innermost first
  and each enclosing one after it, behind the continuations that the drain before it has
  queued; the promise of the chain settles after the outermost. With nothing queued, a
  chain of \<open>n\<close> operations runs the reset and the drain \<open>n\<close> times. The second and later
  rounds are the ones that break the mutual exclusion (see the section on it).
\<close>

lemma finally_per_operation:
  "queue (op_finally (k # outer) r s) = [] \<and>
   finalizations (log (op_finally (k # outer) r s)) = finalizations (log s) @ [k] \<and>
   (if outer = []
    then log (op_finally (k # outer) r s) =
           log (runQueue (s\<lparr>pending := NONE, log := log s @ [Finalized k]\<rparr>)) @ [ChainSettled r]
    else microtasks (op_finally (k # outer) r s) =
           microtasks (runQueue (s\<lparr>pending := NONE, log := log s @ [Finalized k]\<rparr>)) @
           [OpFinally outer r]) \<and>
   (microtasks s = [OpFinally (k # outer) r] \<and> queue s = [] \<longrightarrow>
      exec (replicate (length (k # outer)) Tick) s =
        s\<lparr>pending := NONE, microtasks := [],
          log := log s @ map Finalized (k # outer) @ [ChainSettled r]\<rparr>)"
proof -
  have "finalizations (log (runQueue (s\<lparr>pending := NONE, log := log s @ [Finalized k]\<rparr>))) =
      finalizations (log s) @ [k]"
    using drain_stable_all(3) [OF drain_stable_finalizations,
        of "s\<lparr>pending := NONE, log := log s @ [Finalized k]\<rparr>"]
    by simp
  then show ?thesis
    using finally_rounds [of "k # outer" s r]
    by (simp add: op_finally_def Let_def)
qed

lemma finally_per_operation_example:
  "microtasks two_frames = [OpFinally [Refresh, Renew] Fulfilled] \<and> queue two_frames = [] \<and>
   log (exec [Tick, Tick] two_frames) =
     [Finalized Refresh, Finalized Renew, ChainSettled Fulfilled] \<and>
   pending (exec [Tick, Tick] two_frames) = NONE"
  using finally_per_operation [of Refresh "[Renew]" Fulfilled two_frames]
  by (simp add: two_frames_def fresh_instance_def)

section \<open>Retry after a 401\<close>

text \<open>
  Generate is configured and the embedder is connected. A call is answered 401, is retried
  behind a generate that succeeds, is answered 401 again, and is retried again: two
  retries, and nothing has been surfaced to the caller.
\<close>

theorem second_401_counterexample:
  "retries (log (exec double_401_trace signed_in)) = [call_a, call_a] \<and>
   failures (log (exec double_401_trace signed_in)) = []"
  by (simp add: double_401_trace_def signed_in_def fresh_instance_def generate_only_def
      arrive_def call_a_def unauthorized_def fresh_access_def
      step_def send.simps isQueue.simps runQueue.simps
      Date_now_def renewValid_def refreshValid_def generateValid_def generate_def
      resetAccess_def resetRefresh_def await_isQueue_def run_task_def send_resume_def
      Fetch_send_def settle_op_def settle_transport_def op_catch_def generate_catch_def
      op_finally_def handleErrors_def Let_def retries_def failures_def)

lemma hook_settles:
  assumes "microtasks s = []" and "i < length (hooks s)"
  shows "failures (log (exec [HookSettle i out, Tick] s)) =
           failures (log s) @
           [(caller (fst (hooks s ! i)), case out of None \<Rightarrow> snd (hooks s ! i) | Some e' \<Rightarrow> e')]"
    and "retries (log (exec [HookSettle i out, Tick] s)) = retries (log s)"
  using assms by (simp_all add: step_def settle_hook_def run_task_def hook_resume_def)

text \<open>
  C4, as the code has it: a transport error with status 401 resets the access store; when
  \<open>refreshValid(now)\<close> or \<open>generateValid()\<close> holds the handler calls \<^verbatim>\<open>send\<close> again, once,
  and that call is queued; nothing is surfaced. The handler keeps no count of retries: the
  statement holds in every state, so a second 401 in a row is retried in the same way.
  Any other error, and a 401 with no recovery path, is not retried. Without a hook it is
  surfaced to the caller at once. With a hook configured, the hook is called and awaited
  and nothing is surfaced meanwhile; once the hook has settled the caller gets the error
  itself if the hook fulfilled, and the error of the hook if the hook rejected.
\<close>

theorem retry_after_401:
  "(if status e = 401 \<and> (refreshValid (Date_now s) s \<or> generateValid s)
    then accessStore (handleErrors e c s) = \<lparr>token = None, delay = 0, exp = 0\<rparr> \<and>
         retries (log (handleErrors e c s)) = retries (log s) @ [c] \<and>
         failures (log (handleErrors e c s)) = failures (log s) \<and>
         hooks (handleErrors e c s) = hooks s \<and>
         microtasks (handleErrors e c s) = microtasks s @ [SendCont c True] \<and>
         pending (handleErrors e c s) = SYNC
    else retries (log (handleErrors e c s)) = retries (log s) \<and>
         microtasks (handleErrors e c s) = microtasks s \<and>
         accessStore (handleErrors e c s) =
           (if status e = 401 then \<lparr>token = None, delay = 0, exp = 0\<rparr> else accessStore s) \<and>
         (if has_handleErrors (config s)
          then log (handleErrors e c s) = log s @ [Hooked c e] \<and>
               failures (log (handleErrors e c s)) = failures (log s) \<and>
               hooks (handleErrors e c s) = hooks s @ [(c, e)]
          else failures (log (handleErrors e c s)) = failures (log s) @ [(caller c, e)] \<and>
               hooks (handleErrors e c s) = hooks s)) \<and>
   (microtasks s = [] \<and> i < length (hooks s) \<longrightarrow>
      failures (log (exec [HookSettle i out, Tick] s)) =
        failures (log s) @
        [(caller (fst (hooks s ! i)), case out of None \<Rightarrow> snd (hooks s ! i) | Some e' \<Rightarrow> e')] \<and>
      retries (log (exec [HookSettle i out, Tick] s)) = retries (log s))"
proof -
  have "if status e = 401 \<and> (refreshValid (Date_now s) s \<or> generateValid s)
    then accessStore (handleErrors e c s) = \<lparr>token = None, delay = 0, exp = 0\<rparr> \<and>
         retries (log (handleErrors e c s)) = retries (log s) @ [c] \<and>
         failures (log (handleErrors e c s)) = failures (log s) \<and>
         hooks (handleErrors e c s) = hooks s \<and>
         microtasks (handleErrors e c s) = microtasks s @ [SendCont c True] \<and>
         pending (handleErrors e c s) = SYNC
    else retries (log (handleErrors e c s)) = retries (log s) \<and>
         microtasks (handleErrors e c s) = microtasks s \<and>
         accessStore (handleErrors e c s) =
           (if status e = 401 then \<lparr>token = None, delay = 0, exp = 0\<rparr> else accessStore s) \<and>
         (if has_handleErrors (config s)
          then log (handleErrors e c s) = log s @ [Hooked c e] \<and>
               failures (log (handleErrors e c s)) = failures (log s) \<and>
               hooks (handleErrors e c s) = hooks s @ [(c, e)]
          else failures (log (handleErrors e c s)) = failures (log s) @ [(caller c, e)] \<and>
               hooks (handleErrors e c s) = hooks s)"
  proof (cases "status e = 401 \<and> (refreshValid (Date_now s) s \<or> generateValid s)")
    case True
    define s1 where "s1 = (resetAccess s)\<lparr>log := log (resetAccess s) @ [Retried c]\<rparr>"
    have "refreshValid (Date_now s1) s1 \<or> generateValid s1"
      "accessStore s1 = \<lparr>token = None, delay = 0, exp = 0\<rparr>"
      using True
      by (auto simp add: s1_def Date_now_def refreshValid_def generateValid_def resetAccess_def)
    from retry_admission [OF this]
    have "accessStore (send c s1) = \<lparr>token = None, delay = 0, exp = 0\<rparr>"
      "retries (log (send c s1)) = retries (log s1)"
      "failures (log (send c s1)) = failures (log s1)"
      "microtasks (send c s1) = microtasks s1 @ [SendCont c True]"
      "pending (send c s1) = SYNC"
      by (simp_all add: send.simps await_isQueue_def)
    moreover have "hooks (send c s1) = hooks s1"
      using drain_stable_all(1) [OF drain_stable_hooks] .
    moreover have "handleErrors e c s = send c s1"
      using True
      by (simp add: handleErrors_def Let_def s1_def refreshValid_def generateValid_def
          resetAccess_def Date_now_def)
    moreover have "retries (log s1) = retries (log s) @ [c]"
      "failures (log s1) = failures (log s)" "microtasks s1 = microtasks s" "hooks s1 = hooks s"
      by (simp_all add: s1_def resetAccess_def)
    ultimately show ?thesis using True by simp
  next
    case False
    then show ?thesis
      by (auto simp add: handleErrors_def Let_def refreshValid_def generateValid_def
          resetAccess_def Date_now_def)
  qed
  then show ?thesis using hook_settles [of s i out] by simp
qed

theorem retry_after_401_witness:
  "status unauthorized = 401 \<and> generateValid signed_in \<and>
   retries (log (handleErrors unauthorized call_a signed_in)) = [call_a] \<and>
   failures (log (handleErrors unauthorized call_a signed_in)) = [] \<and>
   retries (log (handleErrors unauthorized call_a (signed_in\<lparr>log := [Retried call_a]\<rparr>))) =
     [call_a, call_a] \<and>
   failures (log (handleErrors unauthorized call_a manual_token)) =
     [(caller call_a, unauthorized)] \<and>
   has_handleErrors (config hooked) \<and>
   failures (log (handleErrors unauthorized call_a hooked)) = [] \<and>
   hooks (handleErrors unauthorized call_a hooked) = [(call_a, unauthorized)] \<and>
   microtasks hook_running = [] \<and> 0 < length (hooks hook_running) \<and>
   failures (log (exec [HookSettle 0 None, Tick] hook_running)) =
     [(caller call_a, unauthorized)] \<and>
   failures (log (exec [HookSettle 0 (Some server_error), Tick] hook_running)) =
     [(caller call_a, server_error)]"
  using retry_after_401 [of unauthorized signed_in call_a 0 None]
    retry_after_401 [of unauthorized "signed_in\<lparr>log := [Retried call_a]\<rparr>" call_a 0 None]
    retry_after_401 [of unauthorized manual_token call_a 0 None]
    retry_after_401 [of unauthorized hooked call_a 0 None]
    retry_after_401 [of unauthorized hook_running call_a 0 None]
    retry_after_401 [of unauthorized hook_running call_a 0 "Some server_error"]
  by (simp add: unauthorized_def signed_in_def manual_token_def hooked_def hook_running_def
      fresh_instance_def generate_only_def bare_def hook_only_def generateValid_def
      refreshValid_def retries_def failures_def)
section \<open>Order of the replays\<close>







section \<open>Admission with a valid access token\<close>

text \<open>
  C6: for a call that finds \<open>pending \<noteq> SYNC\<close> and \<open>accessStore.exp > now\<close>, admission
  answers "proceed" (the continuation of the call is the dispatch, not the push), and it
  starts the background renew, setting \<open>pending\<close> to \<open>ASYNC\<close> and calling the strategy,
  exactly when the spec's \<open>renewDue(now)\<close> holds and \<open>pending\<close> is \<open>NONE\<close>; otherwise it
  leaves the instance as it is.
\<close>

theorem admission_valid_access:
  assumes "pending s \<noteq> SYNC" and "exp (accessStore s) > Date_now s"
  shows "fst (isQueue s) = False \<and>
         snd (isQueue s) =
           (if renewDue (Date_now s) s \<and> pending s = NONE
            then s\<lparr>pending := ASYNC, ops := ops s @ [(Renew, [])],
                   log := log s @ [Invoked Renew]\<rparr>
            else s) \<and>
         send c s = (snd (isQueue s))
           \<lparr>microtasks := microtasks (snd (isQueue s)) @ [SendCont c False]\<rparr>"
  using assms
  by (simp add: isQueue.simps [of s] send.simps await_isQueue_def Let_def renewDue_def
      renewValid_def renew_def)

theorem admission_valid_access_witness:
  "pending stale_access \<noteq> SYNC \<and> exp (accessStore stale_access) > Date_now stale_access \<and>
   renewDue (Date_now stale_access) stale_access \<and>
   fst (isQueue stale_access) = False \<and>
   pending (snd (isQueue stale_access)) = ASYNC \<and>
   ops (snd (isQueue stale_access)) = [(Renew, [])]"
  using admission_valid_access [of stale_access]
  by (simp add: stale_access_def fresh_instance_def all_strategies_def Date_now_def renewDue_def)

section \<open>Admission while a renew is in flight\<close>

text \<open>
  A renew is in flight (\<open>pending = ASYNC\<close>) and the access token has expired in the
  meantime; refresh is configured and valid. The call that arrives now is put into the
  queue.
\<close>

theorem async_expired_counterexample:
  "pending renewing_expired = ASYNC \<and> ops renewing_expired = [(Renew, [])] \<and>
   fst (isQueue renewing_expired) \<and>
   microtasks (send \<lparr>caller = 1, url = ''/a'', opts = 0\<rparr> renewing_expired) =
     [SendCont \<lparr>caller = 1, url = ''/a'', opts = 0\<rparr> True]"
  by (simp add: renewing_expired_def stale_access_def fresh_instance_def all_strategies_def
      send.simps isQueue.simps await_isQueue_def Date_now_def refreshValid_def resetAccess_def)

text \<open>
  C7, as the code has it: while \<open>pending\<close> is \<open>ASYNC\<close> admission never starts a second
  operation. A call proceeds at once, and the instance is left as it is, when the access
  token is still valid (\<open>exp > now\<close>). When the token has expired, the call is queued and
  \<open>pending\<close> becomes \<open>SYNC\<close> if refresh or generate is available. If neither is, admission
  resets both stores and drains the queue (every queued call is replayed, in queue order,
  and proceeds), and the call proceeds; \<open>pending\<close> stays \<open>ASYNC\<close>.
\<close>

theorem admission_during_renew:
  assumes "pending s = ASYNC"
  shows "ops (snd (isQueue s)) = ops s \<and>
         invocations (log (snd (isQueue s))) = invocations (log s) \<and>
         (if exp (accessStore s) > Date_now s then isQueue s = (False, s)
          else if refreshValid (Date_now s) s \<or> generateValid s
          then fst (isQueue s) \<and> pending (snd (isQueue s)) = SYNC
          else isQueue s =
            (False,
             s\<lparr>accessStore := \<lparr>token = None, delay = 0, exp = 0\<rparr>,
               refreshStore := \<lparr>token = None, delay = 0, exp = 0\<rparr>,
               queue := [], log := log s @ map Replayed (queue s),
               microtasks := microtasks s @ map (\<lambda>c. SendCont c False) (rev (queue s))\<rparr>))"
proof -
  have "pending s \<noteq> NONE" using assms by simp
  from guarded_start(2) [OF this]
  have "ops (snd (isQueue s)) = ops s"
    "invocations (log (snd (isQueue s))) = invocations (log s)"
    by simp_all
  moreover have "exp (accessStore s) > Date_now s \<Longrightarrow> isQueue s = (False, s)"
    using assms by (simp add: isQueue.simps [of s] Let_def)
  moreover have "\<not> exp (accessStore s) > Date_now s \<Longrightarrow>
      refreshValid (Date_now s) s \<or> generateValid s \<Longrightarrow>
      fst (isQueue s) \<and> pending (snd (isQueue s)) = SYNC"
    using assms by (auto simp add: isQueue.simps [of s] Let_def valid_after_reset)
  moreover have "isQueue s =
      (False,
       s\<lparr>accessStore := \<lparr>token = None, delay = 0, exp = 0\<rparr>,
         refreshStore := \<lparr>token = None, delay = 0, exp = 0\<rparr>,
         queue := [], log := log s @ map Replayed (queue s),
         microtasks := microtasks s @ map (\<lambda>c. SendCont c False) (rev (queue s))\<rparr>)"
    if a: "\<not> exp (accessStore s) > Date_now s"
      and b: "\<not> (refreshValid (Date_now s) s \<or> generateValid s)"
  proof -
    let ?s2 = "resetRefresh (resetAccess s)"
    have "runQueue ?s2 = ?s2\<lparr>queue := [], log := log ?s2 @ map Replayed (queue s),
           microtasks := microtasks ?s2 @ map (\<lambda>c. SendCont c False) (rev (queue s))\<rparr>"
      using assms b
      by (intro dead_end_drain) (simp_all add: resetAccess_def resetRefresh_def generateValid_def)
    moreover have "isQueue s = (False, runQueue ?s2)"
      using assms a b by (simp add: isQueue.simps [of s] Let_def valid_after_reset)
    ultimately show ?thesis by (simp add: resetAccess_def resetRefresh_def)
  qed
  ultimately show ?thesis by simp
qed

theorem admission_during_renew_witness:
  "pending renewing = ASYNC \<and> isQueue renewing = (False, renewing) \<and>
   pending renewing_expired = ASYNC \<and> pending (snd (isQueue renewing_expired)) = SYNC \<and>
   ops (snd (isQueue renewing_expired)) = [(Renew, [])] \<and>
   pending renewing_no_recovery = ASYNC \<and> \<not> fst (isQueue renewing_no_recovery) \<and>
   queue (snd (isQueue renewing_no_recovery)) = [] \<and>
   log (snd (isQueue renewing_no_recovery)) = [Replayed call_b] \<and>
   microtasks (snd (isQueue renewing_no_recovery)) = [SendCont call_b False] \<and>
   pending (snd (isQueue renewing_no_recovery)) = ASYNC"
  using admission_during_renew [of renewing] admission_during_renew [of renewing_expired]
    admission_during_renew [of renewing_no_recovery]
  by (simp add: renewing_def renewing_expired_def renewing_no_recovery_def renew_running_def
      idle_stale_def stale_access_def fresh_instance_def all_strategies_def
      renew_and_refresh_def Date_now_def refreshValid_def generateValid_def)
section \<open>An instance without strategies\<close>

lemma no_strategy_drain:
  "no_strategy (config s) \<Longrightarrow>
     pending (send c s) = pending s \<and> ops (send c s) = ops s \<and> config (send c s) = config s"
  "no_strategy (config s) \<Longrightarrow>
     pending (snd (isQueue s)) = pending s \<and> ops (snd (isQueue s)) = ops s \<and>
     config (snd (isQueue s)) = config s"
  "no_strategy (config s) \<Longrightarrow>
     pending (runQueue s) = pending s \<and> ops (runQueue s) = ops s \<and>
     config (runQueue s) = config s"
proof (induction c s and s and s rule: send_isQueue_runQueue.induct)
  case (1 c s)
  then show ?case by (simp add: send.simps await_isQueue_def)
next
  case (2 s)
  then show ?case
    by (simp add: isQueue.simps [of s] Let_def resetAccess_def resetRefresh_def no_strategy_def
        renewValid_def refreshValid_def generateValid_def)
next
  case (3 s)
  show ?case
  proof (cases "queue s")
    case Nil
    then show ?thesis by (simp add: runQueue_Nil)
  next
    case (Cons handler rest)
    let ?s1 = "s\<lparr>queue := rest, log := log s @ [Replayed handler]\<rparr>"
    have a: "pending (send handler ?s1) = pending s \<and> ops (send handler ?s1) = ops s \<and>
        config (send handler ?s1) = config s"
      using 3(1) [OF Cons] 3(3) by simp
    show ?thesis
    proof (cases "queue (send handler ?s1) = []")
      case True
      with a Cons show ?thesis by (simp add: runQueue_Cons Let_def)
    next
      case False
      with a Cons 3(2) [OF Cons refl False] 3(3) show ?thesis
        by (simp add: runQueue_Cons Let_def)
    qed
  qed
qed

lemma no_strategy_step:
  assumes "no_strategy (config s)" and "pending s = NONE"
  shows "no_strategy (config (step ev s)) \<and> pending (step ev s) = NONE"
proof (cases ev)
  case (Call cid u r)
  then show ?thesis using assms no_strategy_drain(1) [of s] by (simp add: step_def)
next
  case Tick
  show ?thesis
  proof (cases "microtasks s")
    case Nil
    with Tick assms show ?thesis by (simp add: step_def)
  next
    case (Cons t ts)
    let ?s1 = "s\<lparr>microtasks := ts\<rparr>"
    have s1: "no_strategy (config ?s1)" "pending ?s1 = NONE" using assms by simp_all
    have "no_strategy (config (run_task t ?s1)) \<and> pending (run_task t ?s1) = NONE"
    proof (cases t)
      case (SendCont c q)
      then show ?thesis using s1
        by (simp add: run_task_def send_resume_def Fetch_send_def split: option.split)
    next
      case (OpCatch k outer r)
      then show ?thesis using s1
        by (simp add: run_task_def op_catch_def generate_catch_def renew_catch_def
            refresh_catch_def resetAccess_def resetRefresh_def refreshValid_def
            generateValid_def no_strategy_def Let_def split: settled.split op_kind.split)
    next
      case (OpFinally frames r)
      show ?thesis
      proof (cases frames)
        case Nil
        with OpFinally s1 show ?thesis by (simp add: run_task_def op_finally_def)
      next
        case (Cons k outer)
        let ?s2 = "?s1\<lparr>pending := NONE, log := log ?s1 @ [Finalized k]\<rparr>"
        have "no_strategy (config ?s2)" using s1 by simp
        from no_strategy_drain(3) [OF this] s1
        have "pending (runQueue ?s2) = NONE" "no_strategy (config (runQueue ?s2))" by simp_all
        with OpFinally Cons show ?thesis
          by (simp add: run_task_def op_finally_def Let_def)
      qed
    next
      case (HandleErrors c e)
      let ?s2 = "(resetAccess ?s1)\<lparr>log := log (resetAccess ?s1) @ [Retried c]\<rparr>"
      have "no_strategy (config ?s2)" "pending ?s2 = NONE"
        using s1 by (simp_all add: resetAccess_def)
      with no_strategy_drain(1) [of ?s2 c]
      have "no_strategy (config (send c ?s2))" "pending (send c ?s2) = NONE" by simp_all
      with HandleErrors s1 show ?thesis
        by (simp add: run_task_def handleErrors_def Let_def resetAccess_def)
    next
      case (HookCont c e out)
      then show ?thesis using s1 by (simp add: run_task_def hook_resume_def)
    next
      case (Deliver c resp)
      then show ?thesis using s1 by (simp add: run_task_def)
    qed
    with Tick Cons show ?thesis by (simp add: step_def)
  qed
next
  case (Advance d)
  then show ?thesis using assms by (simp add: step_def)
next
  case (OpSettle i out)
  then show ?thesis using assms
    by (simp add: step_def settle_op_def Let_def split: op_outcome.split)
next
  case (TransportSettle i out)
  then show ?thesis using assms by (simp add: step_def settle_transport_def)
next
  case (HookSettle i out)
  then show ?thesis using assms by (simp add: step_def settle_hook_def)
qed

lemma no_strategy_exec:
  "no_strategy (config s) \<Longrightarrow> pending s = NONE \<Longrightarrow>
   no_strategy (config (exec evs s)) \<and> pending (exec evs s) = NONE"
proof (induction evs arbitrary: s)
  case Nil
  then show ?case by simp
next
  case (Cons ev evs)
  from no_strategy_step [OF Cons.prems, of ev] show ?case
    by (simp add: Cons.IH)
qed

lemma no_strategy_isQueue:
  assumes "no_strategy (config s)" and "pending s \<noteq> SYNC"
  shows "isQueue s =
    (False,
     if exp (accessStore s) > Date_now s then s
     else s\<lparr>accessStore := \<lparr>token = None, delay = 0, exp = 0\<rparr>,
            refreshStore := \<lparr>token = None, delay = 0, exp = 0\<rparr>,
            queue := [], log := log s @ map Replayed (queue s),
            microtasks := microtasks s @ map (\<lambda>c. SendCont c False) (rev (queue s))\<rparr>)"
proof (cases "exp (accessStore s) > Date_now s")
  case True
  with assms show ?thesis
    by (simp add: isQueue.simps [of s] Let_def renewValid_def no_strategy_def)
next
  case False
  let ?s2 = "resetRefresh (resetAccess s)"
  have "runQueue ?s2 = ?s2\<lparr>queue := [], log := log ?s2 @ map Replayed (queue s),
           microtasks := microtasks ?s2 @ map (\<lambda>c. SendCont c False) (rev (queue s))\<rparr>"
    using assms
    by (intro dead_end_drain)
      (simp_all add: resetAccess_def resetRefresh_def generateValid_def no_strategy_def)
  moreover have "isQueue s = (False, runQueue ?s2)"
    using assms False
    by (simp add: isQueue.simps [of s] Let_def refreshValid_def generateValid_def
        no_strategy_def resetAccess_def resetRefresh_def)
  ultimately show ?thesis using False
    by (simp add: resetAccess_def resetRefresh_def)
qed

text \<open>
  No strategy is configured and the embedder has written a token that is still valid into
  \<^verbatim>\<open>accessStore\<close>: admission lets the call proceed and does not reset the access store.
\<close>

theorem no_strategy_valid_access_counterexample:
  "no_strategy (config manual_token) \<and> \<not> fst (isQueue manual_token) \<and>
   accessStore (snd (isQueue manual_token)) = \<lparr>token = Some ''t1'', delay = 0, exp = 5000000\<rparr>"
  by (simp add: manual_token_def fresh_instance_def bare_def no_strategy_def isQueue.simps
      Date_now_def renewValid_def)

text \<open>
  C8, as the code has it: an instance without generate, renew and refresh, idle at the
  start, stays idle whatever happens to it, and admission lets every call proceed. With a
  valid access token it leaves the instance as it is, and the call is sent with that
  token; otherwise it resets both stores and drains the queue: every queued call is
  replayed and proceeds as well, without a token.
\<close>

theorem no_strategy_proceeds:
  assumes "no_strategy (config s)" and "pending s = NONE"
  shows "pending (exec evs s) = NONE \<and>
    isQueue (exec evs s) =
      (False,
       if exp (accessStore (exec evs s)) > Date_now (exec evs s) then exec evs s
       else (exec evs s)
         \<lparr>accessStore := \<lparr>token = None, delay = 0, exp = 0\<rparr>,
          refreshStore := \<lparr>token = None, delay = 0, exp = 0\<rparr>,
          queue := [], log := log (exec evs s) @ map Replayed (queue (exec evs s)),
          microtasks := microtasks (exec evs s) @
            map (\<lambda>c. SendCont c False) (rev (queue (exec evs s)))\<rparr>)"
  using no_strategy_exec [OF assms, of evs] no_strategy_isQueue [of "exec evs s"]
  by simp

theorem no_strategy_proceeds_witness:
  "no_strategy (config two_waiting) \<and> pending two_waiting = NONE \<and>
   \<not> fst (isQueue two_waiting) \<and>
   refreshStore (snd (isQueue two_waiting)) = \<lparr>token = None, delay = 0, exp = 0\<rparr> \<and>
   queue (snd (isQueue two_waiting)) = [] \<and>
   \<not> fst (isQueue manual_token) \<and> snd (isQueue manual_token) = manual_token"
  using no_strategy_proceeds [of two_waiting "[]"] no_strategy_proceeds [of manual_token "[]"]
  by (simp add: two_waiting_def manual_token_def fresh_instance_def bare_def no_strategy_def
      Date_now_def)

section \<open>Header injection\<close>

text \<open>
  The access store holds the empty string, which is not \<^verbatim>\<open>null\<close>: the truthiness test
  fails and the call is sent without an \<^verbatim>\<open>Authorization\<close> header.
\<close>

theorem empty_token_counterexample:
  "token (accessStore empty_token) \<noteq> None \<and>
   log (send_resume call_a False empty_token) = [Fetched call_a no_options] \<and>
   header no_options ''Authorization'' = None"
  by (simp add: empty_token_def fresh_instance_def send_resume_def Fetch_send_def header_def
      no_options_def)

text \<open>
  C9, as the code has it: \<^verbatim>\<open>super.send\<close> receives the caller's options object. Every field
  but \<^verbatim>\<open>headers\<close> is as the caller set it, and so is every header other than
  \<^verbatim>\<open>Authorization\<close>. When the token of the access store is truthy (neither \<^verbatim>\<open>null\<close> nor
  the empty string), \<^verbatim>\<open>Authorization\<close> is \<^verbatim>\<open>Bearer\<close> followed by the token; when it is
  falsy, the object is passed as it is.
\<close>

theorem header_injection:
  "log (send_resume c False s) =
     log s @ [Fetched c (heap (send_resume c False s) (opts c))] \<and>
   flights (send_resume c False s) = flights s @ [c] \<and>
   (heap (send_resume c False s) (opts c))\<lparr>headers := None\<rparr> =
     (heap s (opts c))\<lparr>headers := None\<rparr> \<and>
   (\<forall>k. k \<noteq> ''Authorization'' \<longrightarrow>
      header (heap (send_resume c False s) (opts c)) k = header (heap s (opts c)) k) \<and>
   (case token (accessStore s) of
      None \<Rightarrow> heap (send_resume c False s) (opts c) = heap s (opts c)
    | Some tok \<Rightarrow>
        if tok = [] then heap (send_resume c False s) (opts c) = heap s (opts c)
        else header (heap (send_resume c False s) (opts c)) ''Authorization'' =
               Some (''Bearer '' @ tok))"
  by (simp add: send_resume_def Fetch_send_def bearer_def header_def
      split: option.split)

theorem header_injection_witness:
  "header (heap (send_resume call_a False own_headers) (opts call_a)) ''Accept'' =
     Some ''text/plain'' \<and>
   header (heap (send_resume call_a False own_headers) (opts call_a)) ''Authorization'' =
     Some ''Bearer t1''"
  using header_injection [of call_a own_headers]
  by (simp add: own_headers_def manual_token_def fresh_instance_def header_def no_options_def)


section \<open>The options object is shared between the attempts\<close>



text \<open>
  The whole course: a call is sent with \<^verbatim>\<open>Bearer t1\<close> and answered 401; the retry starts
  generate, which fails; the replay proceeds without a token, and the request carries
  the header of the first attempt.
\<close>

lemma stale_header_is_sent_again:
  "token (accessStore (exec stale_header_trace signed_in)) = None \<and>
   log (exec stale_header_trace signed_in) =
     [Fetched call_a (bearer no_options ''t1''), Retried call_a, Invoked Generate,
      Finalized Generate, Replayed call_a, ChainSettled (Rejected server_error),
      Fetched call_a (bearer no_options ''t1'')]"
  by (simp add: stale_header_trace_def signed_in_def fresh_instance_def generate_only_def
      arrive_def call_a_def unauthorized_def server_error_def
      step_def send.simps isQueue.simps runQueue.simps
      Date_now_def renewValid_def refreshValid_def generateValid_def generate_def
      resetAccess_def resetRefresh_def await_isQueue_def run_task_def send_resume_def
      Fetch_send_def settle_op_def settle_transport_def op_catch_def generate_catch_def
      op_finally_def handleErrors_def Let_def)


end
